theory Spec2Isabelle
  imports Main "HOL-Library.AList" "HOL-Library.Sublist" "HOL-Library.Char_ord"
    "HOL-Library.List_Lexorder"
begin

section \<open>Strings\<close>

text \<open>
  A Python \<open>str\<close> is modelled as a \<open>string\<close>: a list of 8-bit characters, read as the
  code points U+0000 .. U+00FF. On that range \<open>str.lower\<close> moves \<open>A-Z\<close> and the Latin-1
  capitals U+00C0 .. U+00DE (without the multiplication sign U+00D7) up by 32 and leaves
  every other character alone, and \<open>str.isspace\<close> (which is also the regular expression
  class \<open>\s\<close> of a \<open>str\<close> pattern) holds of the code points 9-13, 28-32, 133 and 160.
\<close>

definition py_lower_char :: "char \<Rightarrow> char" where
  "py_lower_char c =
     (let n = (of_char c :: nat) in
      if (65 \<le> n \<and> n \<le> 90) \<or> (192 \<le> n \<and> n \<le> 222 \<and> n \<noteq> 215)
      then char_of (n + 32) else c)"

definition py_lower :: "string \<Rightarrow> string" where
  "py_lower s = map py_lower_char s"

definition is_space :: "char \<Rightarrow> bool" where
  "is_space c =
     (let n = (of_char c :: nat) in
      (9 \<le> n \<and> n \<le> 13) \<or> (28 \<le> n \<and> n \<le> 32) \<or> n = 133 \<or> n = 160)"

text \<open>\<open>s.strip()\<close>: whitespace is removed at both ends.\<close>

definition py_strip :: "string \<Rightarrow> string" where
  "py_strip s = rev (dropWhile is_space (rev (dropWhile is_space s)))"

text \<open>\<open>sub in s\<close> on two strings: \<open>sub\<close> occurs in \<open>s\<close> as a contiguous block.\<close>

definition py_in :: "string \<Rightarrow> string \<Rightarrow> bool" where
  "py_in sub s = sublist sub s"

section \<open>cleaner.py: the reducer\<close>

text \<open>
  A row is the dictionary that \<open>csv.DictReader\<close> yields for one line of \<open>emails.csv\<close>;
  its keys are the eight columns that scraper.py writes, and every value is a string (a
  line that is cut short, for which the reader would give \<open>None\<close>, is left out). All keys
  are present, so \<open>row.get("smtp_note", "")\<close> is the value of that column.
\<close>

record row =
  username :: string
  full_name :: string
  external_url :: string
  email :: string
  source :: string
  mx :: string
  smtp_status :: string
  smtp_note :: string

definition PRIORITY :: "(string \<times> nat) list" where
  "PRIORITY = [(''bio'', 1), (''site'', 2), (''site_deep'', 3), (''guess_personal'', 4)]"

definition priority_value :: "string \<Rightarrow> nat" where
  "priority_value src = (case map_of PRIORITY src of Some p \<Rightarrow> p | None \<Rightarrow> 99)"

definition is_valid_email :: "string \<Rightarrow> bool" where
  "is_valid_email em =
     (if em = [] then False
      else if py_in ''example.com'' (py_lower em) then False
      else if py_strip em = [] then False
      else if CHR ''@'' \<notin> set em then False
      else True)"

definition is_error_row :: "row \<Rightarrow> bool" where
  "is_error_row r =
     (if source r = ''error'' then True
      else if py_in ''profile_error'' (smtp_note r) then True
      else False)"

fun clean_rows :: "row list \<Rightarrow> row list" where
  "clean_rows [] = []"
| "clean_rows (r # rows) =
     (if is_error_row r then clean_rows rows
      else if \<not> is_valid_email (email r) then clean_rows rows
      else r # clean_rows rows)"

text \<open>
  The dictionary \<open>best\<close> keeps its keys in insertion order, and assigning to a key that is
  present keeps the key's place: this is \<open>AList.update\<close> on an association list.
  \<open>list(best.values())\<close> is the list of the values in that order.
\<close>

fun select_best_loop :: "(string \<times> row) list \<Rightarrow> row list \<Rightarrow> (string \<times> row) list" where
  "select_best_loop best [] = best"
| "select_best_loop best (r # rows) =
     (let user = username r in
      case map_of best user of
        None \<Rightarrow> select_best_loop (AList.update user r best) rows
      | Some cur \<Rightarrow>
          if priority_value (source r) < priority_value (source cur)
          then select_best_loop (AList.update user r best) rows
          else select_best_loop best rows)"

definition select_best :: "row list \<Rightarrow> row list" where
  "select_best cleaned_rows = map snd (select_best_loop [] cleaned_rows)"

text \<open>The pipeline of \<open>main\<close>: filter, then select.\<close>

definition reduce_rows :: "row list \<Rightarrow> row list" where
  "reduce_rows rows = select_best (clean_rows rows)"

subsection \<open>The replacement rule in the specification's words\<close>

text \<open>
  The priority table of the specification, and the running best of one handle: the first
  record is the current best, and a later record replaces it only when its rank is
  strictly lower.
\<close>

definition spec_rank :: "string \<Rightarrow> nat" where
  "spec_rank tier =
     (if tier = ''bio'' then 1 else if tier = ''site'' then 2
      else if tier = ''site_deep'' then 3 else if tier = ''guess_personal'' then 4
      else 99)"

fun spec_running_best :: "row \<Rightarrow> row list \<Rightarrow> row" where
  "spec_running_best b [] = b"
| "spec_running_best b (r # rs) =
     spec_running_best (if spec_rank (source r) < spec_rank (source b) then r else b) rs"

definition spec_best_for :: "string \<Rightarrow> row list \<Rightarrow> row option" where
  "spec_best_for u rows =
     (case filter (\<lambda>r. username r = u) rows of
        [] \<Rightarrow> None
      | r # rs \<Rightarrow> Some (spec_running_best r rs))"

subsection \<open>Invariant of the dictionary \<open>best\<close>\<close>

definition best_inv :: "(string \<times> row) list \<Rightarrow> bool" where
  "best_inv best = (distinct (map fst best) \<and> list_all (\<lambda>p. username (snd p) = fst p) best)"

subsection \<open>Rows and the domain of an address\<close>

text \<open>
  \<open>s.split(sep)\<close> for a separator of one character. The result always has an element,
  so the second case of the inner \<open>case\<close> is never taken.
\<close>

fun py_split_on :: "char \<Rightarrow> string \<Rightarrow> string list" where
  "py_split_on c [] = [[]]"
| "py_split_on c (x # xs) =
     (if x = c then [] # py_split_on c xs
      else (case py_split_on c xs of w # ws \<Rightarrow> (x # w) # ws | [] \<Rightarrow> [[x]]))"

text \<open>
  \<open>em.split("@")[-1]\<close>: the text behind the last \<open>@\<close>, or all of \<open>em\<close> when it has none.
  scraper.py looks up the MX records of this text.
\<close>

definition domain_part :: "string \<Rightarrow> string" where
  "domain_part em = last (py_split_on (CHR ''@'') em)"

text \<open>The dictionary with which scraper.py makes a row.\<close>

definition make_row ::
  "string \<Rightarrow> string \<Rightarrow> string \<Rightarrow> string \<Rightarrow> string \<Rightarrow> string \<Rightarrow> string \<Rightarrow> string \<Rightarrow> row" where
  "make_row u fn url em src mxs st note =
     \<lparr>username = u, full_name = fn, external_url = url, email = em, source = src,
      mx = mxs, smtp_status = st, smtp_note = note\<rparr>"

section \<open>scraper.py: text\<close>

subsection \<open>Python string operations\<close>

definition is_ascii_alpha :: "char \<Rightarrow> bool" where
  "is_ascii_alpha c =
     (let n = (of_char c :: nat) in (65 \<le> n \<and> n \<le> 90) \<or> (97 \<le> n \<and> n \<le> 122))"

definition is_ascii_digit :: "char \<Rightarrow> bool" where
  "is_ascii_digit c = (let n = (of_char c :: nat) in 48 \<le> n \<and> n \<le> 57)"

definition is_ascii_alnum :: "char \<Rightarrow> bool" where
  "is_ascii_alnum c = (is_ascii_alpha c \<or> is_ascii_digit c)"

text \<open>\<open>sep.join(xs)\<close>.\<close>

fun py_join :: "string \<Rightarrow> string list \<Rightarrow> string" where
  "py_join sep [] = []"
| "py_join sep [x] = x"
| "py_join sep (x # y # ys) = x @ sep @ py_join sep (y # ys)"

text \<open>
  \<open>s.split()\<close>: the maximal runs of characters that are not whitespace. The accumulator
  holds the run being read, reversed.
\<close>

fun py_split_ws_acc :: "string \<Rightarrow> string \<Rightarrow> string list" where
  "py_split_ws_acc acc [] = (if acc = [] then [] else [rev acc])"
| "py_split_ws_acc acc (c # cs) =
     (if is_space c then (if acc = [] then [] else [rev acc]) @ py_split_ws_acc [] cs
      else py_split_ws_acc (c # acc) cs)"

definition py_split_ws :: "string \<Rightarrow> string list" where
  "py_split_ws s = py_split_ws_acc [] s"

text \<open>
  \<open>s.replace(old, new)\<close> for a non-empty \<open>old\<close> (the four calls of the source have one):
  the occurrences of \<open>old\<close> are replaced from the left, without overlap.
\<close>

fun py_replace :: "string \<Rightarrow> string \<Rightarrow> string \<Rightarrow> string" where
  "py_replace old new [] = []"
| "py_replace old new (c # cs) =
     (if prefix old (c # cs) then new @ py_replace old new (drop (length old - 1) cs)
      else c # py_replace old new cs)"

text \<open>\<open>email.split("@", 1)\<close>: at most one split, at the first separator.\<close>

definition py_split_first :: "char \<Rightarrow> string \<Rightarrow> string list" where
  "py_split_first sep s =
     (if sep \<in> set s
      then [takeWhile (\<lambda>c. c \<noteq> sep) s, drop 1 (dropWhile (\<lambda>c. c \<noteq> sep) s)]
      else [s])"

subsection \<open>Regular expressions\<close>

text \<open>
  The three patterns of the source are sequences of items, each a character class, taken
  once, or a class under a greedy \<open>*\<close> or \<open>+\<close>; \<open>OBFUSCATION\<close> is an alternation of such
  sequences. \<open>match_seq\<close> is the backtracking matcher of \<open>re\<close> on such a sequence: a greedy
  item first takes as many characters as it can and gives them back one at a time while
  the rest of the sequence fails. The result is the input left after the match.
\<close>

datatype rx = Cls "char \<Rightarrow> bool" | Star "char \<Rightarrow> bool" | Plus "char \<Rightarrow> bool"

fun match_seq :: "rx list \<Rightarrow> string \<Rightarrow> string option" where
  "match_seq [] s = Some s"
| "match_seq (Cls p # rs) [] = None"
| "match_seq (Cls p # rs) (c # cs) = (if p c then match_seq rs cs else None)"
| "match_seq (Plus p # rs) [] = None"
| "match_seq (Plus p # rs) (c # cs) = (if p c then match_seq (Star p # rs) cs else None)"
| "match_seq (Star p # rs) [] = match_seq rs []"
| "match_seq (Star p # rs) (c # cs) =
     (if p c
      then (case match_seq (Star p # rs) cs of
              Some r \<Rightarrow> Some r
            | None \<Rightarrow> match_seq rs (c # cs))
      else match_seq rs (c # cs))"

text \<open>An alternation takes the first alternative that matches.\<close>

fun match_alt :: "rx list list \<Rightarrow> string \<Rightarrow> string option" where
  "match_alt [] s = None"
| "match_alt (a # as) s =
     (case match_seq a s of Some r \<Rightarrow> Some r | None \<Rightarrow> match_alt as s)"

text \<open>The text of a match that leaves \<open>r\<close> of the input \<open>s\<close>.\<close>

definition matched :: "string \<Rightarrow> string \<Rightarrow> string" where
  "matched s r = take (length s - length r) s"

definition lit :: "char \<Rightarrow> rx" where
  "lit x = Cls (\<lambda>c. c = x)"

text \<open>A letter under \<open>re.IGNORECASE\<close>.\<close>

definition lit_i :: "char \<Rightarrow> rx" where
  "lit_i x = Cls (\<lambda>c. py_lower_char c = x)"

definition local_char :: "char \<Rightarrow> bool" where
  "local_char c = (is_ascii_alnum c \<or> c = CHR ''_'' \<or> c = CHR ''.'' \<or> c = CHR ''+'' \<or> c = CHR ''-'')"

definition label_char :: "char \<Rightarrow> bool" where
  "label_char c = (is_ascii_alnum c \<or> c = CHR ''-'')"

definition tail_char :: "char \<Rightarrow> bool" where
  "tail_char c = (is_ascii_alnum c \<or> c = CHR ''-'' \<or> c = CHR ''.'')"

text \<open>\<^verbatim>\<open>[a-zA-Z0-9_.+-]+@[a-zA-Z0-9-]+\.[a-zA-Z0-9-.]+\<close>\<close>

definition EMAIL_REGEX :: "rx list" where
  "EMAIL_REGEX = [Plus local_char, lit (CHR ''@''), Plus label_char, lit (CHR ''.''), Plus tail_char]"

text \<open>\<^verbatim>\<open>mailto:([^?]+)\<close>\<close>

definition MAILTO_REGEX :: "rx list" where
  "MAILTO_REGEX =
     [lit (CHR ''m''), lit (CHR ''a''), lit (CHR ''i''), lit (CHR ''l''), lit (CHR ''t''),
      lit (CHR ''o''), lit (CHR '':''), Plus (\<lambda>c. c \<noteq> CHR ''?'')]"

text \<open>
  \<^verbatim>\<open>\s*\[\s*at\s*\]\s*|\s*\(\s*at\s*\)\s*|\s+at\s+|\s*\[dot\]\s*|\s*\(\s*dot\s*\)\s*|\s+dot\s+\<close>
  with \<open>re.IGNORECASE\<close>.
\<close>

definition OBFUSCATION :: "rx list list" where
  "OBFUSCATION =
     [[Star is_space, lit (CHR ''[''), Star is_space, lit_i (CHR ''a''), lit_i (CHR ''t''),
       Star is_space, lit (CHR '']''), Star is_space],
      [Star is_space, lit (CHR ''(''), Star is_space, lit_i (CHR ''a''), lit_i (CHR ''t''),
       Star is_space, lit (CHR '')''), Star is_space],
      [Plus is_space, lit_i (CHR ''a''), lit_i (CHR ''t''), Plus is_space],
      [Star is_space, lit (CHR ''[''), lit_i (CHR ''d''), lit_i (CHR ''o''), lit_i (CHR ''t''),
       lit (CHR '']''), Star is_space],
      [Star is_space, lit (CHR ''(''), Star is_space, lit_i (CHR ''d''), lit_i (CHR ''o''),
       lit_i (CHR ''t''), Star is_space, lit (CHR '')''), Star is_space],
      [Plus is_space, lit_i (CHR ''d''), lit_i (CHR ''o''), lit_i (CHR ''t''), Plus is_space]]"

text \<open>
  \<open>OBFUSCATION.sub(f, text)\<close> with \<open>f\<close> the lambda of the source: the text is read from
  the left; where the pattern matches, the match is replaced and reading goes on behind
  it, and elsewhere one character is copied. A match of this pattern is never empty; the
  test on the lengths says so to the termination proof.
\<close>

definition obf_replacement :: "string \<Rightarrow> string" where
  "obf_replacement m = (if py_in ''at'' (py_lower m) then ''@'' else ''.'')"

function obf_sub :: "string \<Rightarrow> string" where
  "obf_sub [] = []"
| "obf_sub (c # cs) =
     (case match_alt OBFUSCATION (c # cs) of
        None \<Rightarrow> c # obf_sub cs
      | Some r \<Rightarrow>
          if length r < length (c # cs)
          then obf_replacement (matched (c # cs) r) @ obf_sub r
          else c # obf_sub cs)"
  by pat_completeness auto
termination
  by (relation "measure length") auto

definition clean_obfuscated_email :: "string \<Rightarrow> string" where
  "clean_obfuscated_email txt =
     (let t = obf_sub txt in
      py_replace '' (dot) '' ''.''
        (py_replace '' [dot] '' ''.''
           (py_replace '' (at) '' ''@''
              (py_replace '' [at] '' ''@'' t))))"

text \<open>
  \<open>EMAIL_REGEX.finditer(text)\<close>: the matches from the left, without overlap. A match of
  this pattern is never empty.
\<close>

function email_finditer :: "string \<Rightarrow> string list" where
  "email_finditer [] = []"
| "email_finditer (c # cs) =
     (case match_seq EMAIL_REGEX (c # cs) of
        None \<Rightarrow> email_finditer cs
      | Some r \<Rightarrow>
          if length r < length (c # cs)
          then matched (c # cs) r # email_finditer r
          else email_finditer cs)"
  by pat_completeness auto
termination
  by (relation "measure length") auto

definition extract_emails_from_text :: "string \<Rightarrow> string set" where
  "extract_emails_from_text txt = set (email_finditer (clean_obfuscated_email txt))"

text \<open>
  \<open>MAILTO_REGEX.search(href)\<close>, and group 1 of the match: what follows \<open>mailto:\<close> up to
  the first question mark.
\<close>

fun mailto_search :: "string \<Rightarrow> string option" where
  "mailto_search [] = None"
| "mailto_search (c # cs) =
     (case match_seq MAILTO_REGEX (c # cs) of
        None \<Rightarrow> mailto_search cs
      | Some r \<Rightarrow> Some (drop 7 (matched (c # cs) r)))"

subsection \<open>Guessing\<close>

text \<open>
  \<open>guess_emails\<close>. The name is non-empty after \<open>strip\<close> where \<open>parts[0]\<close> is read, so
  \<open>parts\<close> has an element and the read cannot raise; the first case below is never taken.
\<close>

definition name_parts :: "string \<Rightarrow> string list" where
  "name_parts fullname =
     filter (\<lambda>p. p \<noteq> [])
       (py_split_ws (py_lower (py_strip (filter (\<lambda>c. is_ascii_alpha c \<or> is_space c) fullname))))"

definition guess_bases :: "string list \<Rightarrow> string list" where
  "guess_bases parts =
     (case parts of
        [] \<Rightarrow> []
      | first # _ \<Rightarrow>
          (let lst = (if length parts > 1 then last parts else []);
               fl = take 1 first;
               ll = take 1 lst
           in (if lst \<noteq> []
               then [first @ ''.'' @ lst, first @ lst, fl @ lst, first @ ll,
                     first @ ''_'' @ lst, first @ ''-'' @ lst]
               else []) @ [first]))"

definition guess_emails :: "string \<Rightarrow> string \<Rightarrow> string set" where
  "guess_emails fullname domain =
     (if domain = [] \<or> fullname = [] then {}
      else if py_lower (py_strip (filter (\<lambda>c. is_ascii_alpha c \<or> is_space c) fullname)) = []
      then {}
      else (\<lambda>b. b @ ''@'' @ domain) ` set (guess_bases (name_parts fullname)))"

subsection \<open>Shapes of strings\<close>

text \<open>
  Three predicates used to state facts about the functions above. A string has the shape
  of an address when \<open>EMAIL_REGEX\<close> matches all of it. An address character is one that
  can occur in a match. A string is calm when it is made of address characters and single
  blanks, each blank followed by at least four address characters.
\<close>

definition email_shaped :: "string \<Rightarrow> bool" where
  "email_shaped m = (match_seq EMAIL_REGEX m = Some [])"

definition address_char :: "char \<Rightarrow> bool" where
  "address_char c = (local_char c \<or> c = CHR ''@'')"

fun calm :: "string \<Rightarrow> bool" where
  "calm [] = True"
| "calm (c # cs) =
     ((address_char c \<or> (c = CHR '' '' \<and> 4 \<le> length cs \<and> list_all address_char (take 4 cs)))
      \<and> calm cs)"

section \<open>scraper.py: network\<close>

subsection \<open>Integers and text\<close>

text \<open>The decimal text of an integer, as an f-string writes it.\<close>

definition digit_char :: "nat \<Rightarrow> char" where
  "digit_char d = ''0123456789'' ! d"

function show_nat :: "nat \<Rightarrow> string" where
  "show_nat n = (if n < 10 then [digit_char n] else show_nat (n div 10) @ [digit_char (n mod 10)])"
  by pat_completeness auto
termination
  by (relation "measure id") auto

definition show_int :: "int \<Rightarrow> string" where
  "show_int i = (if i < 0 then ''-'' @ show_nat (nat (- i)) else show_nat (nat i))"

text \<open>
  \<open>int(s)\<close> on a string, as Python 3.11 reads it: whitespace around the number is
  dropped, a sign may come first, and single underscores may stand between digits.
  \<open>None\<close> is the \<open>ValueError\<close>. The whitespace that \<open>int\<close> drops is narrower than
  \<open>str.isspace\<close>: the separators U+001C .. U+001F are not part of it. A number of more
  than \<open>sys.get_int_max_str_digits()\<close> digits, 4300 unless it is set otherwise, is refused.
\<close>

definition is_int_space :: "char \<Rightarrow> bool" where
  "is_int_space c =
     (let n = (of_char c :: nat) in (9 \<le> n \<and> n \<le> 13) \<or> n = 32 \<or> n = 133 \<or> n = 160)"

definition int_strip :: "string \<Rightarrow> string" where
  "int_strip s = rev (dropWhile is_int_space (rev (dropWhile is_int_space s)))"

definition int_max_str_digits :: nat where
  "int_max_str_digits = 4300"

definition digit_val :: "char \<Rightarrow> nat" where
  "digit_val c = of_char c - 48"

fun py_digits :: "nat \<Rightarrow> string \<Rightarrow> nat option" where
  "py_digits acc [] = Some acc"
| "py_digits acc [c] = (if is_ascii_digit c then Some (10 * acc + digit_val c) else None)"
| "py_digits acc (c # d # cs) =
     (if is_ascii_digit c then py_digits (10 * acc + digit_val c) (d # cs)
      else if c = CHR ''_'' \<and> is_ascii_digit d then py_digits acc (d # cs)
      else None)"

definition py_nat_literal :: "string \<Rightarrow> nat option" where
  "py_nat_literal s =
     (case s of
        [] \<Rightarrow> None
      | c # cs \<Rightarrow>
          if \<not> is_ascii_digit c then None
          else if length (filter is_ascii_digit s) > int_max_str_digits then None
          else py_digits (digit_val c) cs)"

definition py_int :: "string \<Rightarrow> int option" where
  "py_int s =
     (case int_strip s of
        [] \<Rightarrow> None
      | c # cs \<Rightarrow>
          if c = CHR ''-'' then map_option (\<lambda>n. - int n) (py_nat_literal cs)
          else if c = CHR ''+'' then map_option int (py_nat_literal cs)
          else map_option int (py_nat_literal (c # cs)))"

definition py_str_bool :: "bool \<Rightarrow> string" where
  "py_str_bool b = (if b then ''True'' else ''False'')"

subsection \<open>The environment\<close>

text \<open>
  What the program reads from the network is a parameter of the model. A call either
  raises an exception, named by its class, or returns. Every call is also written to a log
  of events, so that a theorem can say which calls a function makes.
\<close>

datatype 'a outcome = Raises string | Returns 'a

datatype event = HttpHead string | HttpGet string | DnsMx string | SmtpSession string string

text \<open>
  An SMTP session with one host, from \<open>smtplib.SMTP(host, 25)\<close> to the end of the
  \<open>with\<close> block: it ends with the reply code of \<open>RCPT\<close>, or with one of the exceptions that
  the source catches (\<open>SMTPException\<close>, \<open>socket.timeout\<close>, \<open>ConnectionError\<close>). An exception
  of another class would end the run; the environment is taken not to raise one.
\<close>

datatype smtp_reply = Reply int | Failed

text \<open>
  The page that \<open>BeautifulSoup\<close> parses out of a response: the visible text, the
  \<open>content\<close> of each \<open>meta\<close> tag (empty where the tag has none), and the \<open>href\<close> of each
  anchor that has one.
\<close>

record page =
  visible_text :: string
  meta_contents :: "string list"
  anchor_hrefs :: "string list"

record response =
  status_code :: int
  final_url :: string
  parsed :: "page outcome"

record profile =
  pf_full_name :: "string option"
  pf_biography :: "string option"
  pf_external_url :: "string option"

record env =
  profile_of :: "string \<Rightarrow> profile outcome"
  http_head :: "string \<Rightarrow> string option outcome"
  http_get :: "string \<Rightarrow> response outcome"
  dns_mx :: "string \<Rightarrow> string list outcome"
  smtp_rcpt :: "string \<Rightarrow> string \<Rightarrow> smtp_reply"
  tld_extract :: "string \<Rightarrow> string \<times> string"
  urljoin :: "string \<Rightarrow> string \<Rightarrow> string outcome"
  set_order :: "string set \<Rightarrow> string list"

text \<open>
  \<open>http_head\<close> gives the \<open>Content-Length\<close> header of the response to \<open>requests.head\<close>,
  if it has one; \<open>dns_mx\<close> the hosts that \<open>dns.resolver.resolve(domain, "MX")\<close> answers;
  \<open>tld_extract\<close> the domain and the suffix that \<open>tldextract.extract\<close> finds;
  \<open>urljoin\<close> is \<open>urllib.parse.urljoin\<close>, which raises on some references.
  \<open>set_order\<close> is the order in which a \<open>for\<close> loop visits a Python set, which the language
  leaves open: \<open>order_ok\<close> says that the loop visits the elements of the set, each once.

  Three kinds of call stand outside every \<open>try\<close> of the source: \<open>tldextract.extract\<close>,
  the reads of the fields of a profile, and the writes to the output files. An exception
  there would end the run before it has written all its rows; these calls are taken to
  return.
\<close>

definition order_ok :: "env \<Rightarrow> bool" where
  "order_ok e = (\<forall>S. finite S \<longrightarrow> set (set_order e S) = S \<and> distinct (set_order e S))"

subsection \<open>Domains\<close>

definition AGGREGATOR_DOMAINS :: "string set" where
  "AGGREGATOR_DOMAINS =
     {''linktr.ee'', ''bio.site'', ''beacons.ai'', ''bit.ly'', ''campsite.bio'', ''msha.ke'',
      ''withkoji.com'', ''stan.store''}"

definition SOCIAL_DOMAINS :: "string set" where
  "SOCIAL_DOMAINS =
     {''instagram.com'', ''facebook.com'', ''fb.com'', ''youtube.com'', ''youtu.be'',
      ''tiktok.com'', ''x.com'', ''twitter.com'', ''pinterest.com'', ''patreon.com'',
      ''substack.com''}"

definition is_aggregator_or_social :: "string \<Rightarrow> bool" where
  "is_aggregator_or_social d = (d \<in> AGGREGATOR_DOMAINS \<or> d \<in> SOCIAL_DOMAINS)"

definition domain_from_url :: "env \<Rightarrow> string \<Rightarrow> string option" where
  "domain_from_url e url =
     (if url = [] then None
      else (let (dm, suf) = tld_extract e url in
            if dm = [] \<or> suf = [] then None else Some (dm @ ''.'' @ suf)))"

definition mx_exists :: "env \<Rightarrow> string \<Rightarrow> bool \<times> event list" where
  "mx_exists e d = ((case dns_mx e d of Raises x \<Rightarrow> False | Returns hosts \<Rightarrow> True), [DnsMx d])"

subsection \<open>The fetcher\<close>

text \<open>\<open>int(h.headers.get("Content-Length", "0") or 0)\<close>\<close>

definition size_of_head :: "string option \<Rightarrow> int outcome" where
  "size_of_head h =
     (let v = (case h of None \<Rightarrow> ''0'' | Some x \<Rightarrow> x) in
      if v = [] then Returns 0
      else (case py_int v of None \<Rightarrow> Raises ''ValueError'' | Some n \<Rightarrow> Returns n))"

definition page_emails :: "page \<Rightarrow> string set" where
  "page_emails pg =
     set (concat (map (\<lambda>h. case mailto_search h of None \<Rightarrow> [] | Some m \<Rightarrow> [m])
                      (filter (prefix ''mailto:'') (anchor_hrefs pg))))
     \<union> extract_emails_from_text (py_join '' '' (visible_text pg # meta_contents pg))"

text \<open>
  The loop over the anchors that collects the links. \<open>urljoin\<close> raises on some
  references (a \<open>ValueError\<close> on \<open>http://[bad\<close>, for one); the call stands inside the
  \<open>try\<close>, so the first reference on which it raises ends the loop and the fetch.
\<close>

fun join_links :: "env \<Rightarrow> string \<Rightarrow> string list \<Rightarrow> string list outcome" where
  "join_links e base [] = Returns []"
| "join_links e base (href # hrefs) =
     (if prefix ''#'' href \<or> prefix ''mailto:'' href then join_links e base hrefs
      else (case urljoin e base href of
              Raises x \<Rightarrow> Raises x
            | Returns full \<Rightarrow>
                (case join_links e base hrefs of
                   Raises x \<Rightarrow> Raises x
                 | Returns fulls \<Rightarrow> Returns (full # fulls))))"

definition page_links :: "env \<Rightarrow> string \<Rightarrow> page \<Rightarrow> string set outcome" where
  "page_links e base pg =
     (case join_links e base (anchor_hrefs pg) of
        Raises x \<Rightarrow> Raises x
      | Returns fulls \<Rightarrow> Returns (set fulls))"

definition extract_emails_and_links_from_url ::
  "env \<Rightarrow> string \<Rightarrow> int \<Rightarrow> (string set \<times> string set \<times> string) \<times> event list" where
  "extract_emails_and_links_from_url e url max_bytes =
     (case http_head e url of
        Raises x \<Rightarrow> (({}, {}, ''error:'' @ x), [HttpHead url])
      | Returns h \<Rightarrow>
          (case size_of_head h of
             Raises x \<Rightarrow> (({}, {}, ''error:'' @ x), [HttpHead url])
           | Returns sz \<Rightarrow>
               if sz \<noteq> 0 \<and> sz > max_bytes
               then (({}, {}, ''skip_large:'' @ show_int sz), [HttpHead url])
               else
                 (case http_get e url of
                    Raises x \<Rightarrow> (({}, {}, ''error:'' @ x), [HttpHead url, HttpGet url])
                  | Returns r \<Rightarrow>
                      if status_code r \<ge> 400
                      then (({}, {}, ''http_'' @ show_int (status_code r)),
                            [HttpHead url, HttpGet url])
                      else
                        (case parsed r of
                           Raises x \<Rightarrow> (({}, {}, ''error:'' @ x), [HttpHead url, HttpGet url])
                         | Returns pg \<Rightarrow>
                             (case page_links e (final_url r) pg of
                                Raises x \<Rightarrow>
                                  (({}, {}, ''error:'' @ x), [HttpHead url, HttpGet url])
                              | Returns links \<Rightarrow>
                                  ((page_emails pg, links, ''ok''),
                                   [HttpHead url, HttpGet url]))))))"

subsection \<open>The verifier\<close>

fun try_hosts :: "env \<Rightarrow> string \<Rightarrow> string list \<Rightarrow> (string \<times> string) \<times> event list" where
  "try_hosts e em [] = ((''unknown'', ''mx_unreachable''), [])"
| "try_hosts e em (host # hosts) =
     (case smtp_rcpt e host em of
        Reply code \<Rightarrow>
          if 200 \<le> code \<and> code < 300 then ((''accepted'', host), [SmtpSession host em])
          else if 500 \<le> code \<and> code < 600
          then ((''refused'', host @ '':'' @ show_int code), [SmtpSession host em])
          else ((''unknown'', host @ '':'' @ show_int code), [SmtpSession host em])
      | Failed \<Rightarrow>
          (let (res, evs) = try_hosts e em hosts in (res, SmtpSession host em # evs)))"

definition smtp_handshake_check :: "env \<Rightarrow> string \<Rightarrow> (string \<times> string) \<times> event list" where
  "smtp_handshake_check e em =
     (case py_split_first (CHR ''@'') em of
        [x, domain] \<Rightarrow>
          (case dns_mx e domain of
             Raises x \<Rightarrow> ((''unknown'', ''no_mx''), [DnsMx domain])
           | Returns mx_hosts \<Rightarrow>
               (let (res, evs) = try_hosts e em mx_hosts in (res, DnsMx domain # evs)))
      | _ \<Rightarrow> ((''unknown'', ''bad_email''), []))"

text \<open>
  What \<open>main\<close> does for each address it has found: the MX lookup on the text behind the
  last \<open>@\<close>, then the handshake when it is switched on and the lookup found a record.
  The result is the triple \<open>mx\<close>, \<open>smtp_status\<close>, \<open>smtp_note\<close> of the row.
\<close>

definition verify_email :: "env \<Rightarrow> bool \<Rightarrow> string \<Rightarrow> (bool \<times> string \<times> string) \<times> event list" where
  "verify_email e smtp_verify em =
     (let (mx_ok, evs) = mx_exists e (domain_part em) in
      if smtp_verify \<and> mx_ok
      then (let ((st, nt), evs') = smtp_handshake_check e em in ((mx_ok, st, nt), evs @ evs'))
      else ((mx_ok, '''', ''''), evs))"

section \<open>scraper.py: one run\<close>

text \<open>
  The options of the command line that the crawl reads, and \<open>x or ""\<close> on a value that
  may be \<open>None\<close>.
\<close>

record args =
  max_site_bytes :: int
  smtp_verify :: bool
  max_deep_links :: int

definition or_empty :: "string option \<Rightarrow> string" where
  "or_empty v = (case v of None \<Rightarrow> [] | Some s \<Rightarrow> s)"

text \<open>
  The body that the four loops over addresses share: each address is verified and
  becomes one row.
\<close>

definition email_rows ::
  "env \<Rightarrow> args \<Rightarrow> string \<Rightarrow> string \<Rightarrow> string \<Rightarrow> string \<Rightarrow> string list \<Rightarrow> row list" where
  "email_rows e ag u fullname url src ems =
     map (\<lambda>em. (let (mx_ok, st, nt) = fst (verify_email e (smtp_verify ag) em) in
                 make_row u fullname url em src (py_str_bool mx_ok) st nt)) ems"

text \<open>
  The dictionary \<open>candidate_domains\<close>: the first link seen for each domain that is neither
  an aggregator nor a social platform.
\<close>

fun candidate_domains_loop ::
  "env \<Rightarrow> (string \<times> string) list \<Rightarrow> string list \<Rightarrow> (string \<times> string) list" where
  "candidate_domains_loop e cd [] = cd"
| "candidate_domains_loop e cd (link # links) =
     (case domain_from_url e link of
        None \<Rightarrow> candidate_domains_loop e cd links
      | Some d \<Rightarrow>
          if is_aggregator_or_social d then candidate_domains_loop e cd links
          else if map_of cd d = None
          then candidate_domains_loop e (AList.update d link cd) links
          else candidate_domains_loop e cd links)"

text \<open>
  The deep crawl: the loop over \<open>candidate_domains.items()\<close> with its counter. It gives the
  rows of tier \<open>site_deep\<close> and the set \<open>personal_domains\<close>.
\<close>

fun deep_crawl ::
  "env \<Rightarrow> args \<Rightarrow> string \<Rightarrow> string \<Rightarrow> int \<Rightarrow> (string \<times> string) list
   \<Rightarrow> row list \<times> string set" where
  "deep_crawl e ag u fullname deep_count [] = ([], {})"
| "deep_crawl e ag u fullname deep_count ((dm, link) # rest) =
     (if deep_count \<ge> max_deep_links ag then ([], {})
      else
        (let (deep_emails, links, dnote) =
               fst (extract_emails_and_links_from_url e link (max_site_bytes ag));
             rows = email_rows e ag u fullname link ''site_deep'' (set_order e deep_emails);
             (rows', personal) = deep_crawl e ag u fullname (deep_count + 1) rest
         in (rows @ rows', (if deep_emails \<noteq> {} then {dm} else {}) \<union> personal)))"

definition guess_rows :: "env \<Rightarrow> args \<Rightarrow> string \<Rightarrow> string \<Rightarrow> string list \<Rightarrow> row list" where
  "guess_rows e ag u fullname doms =
     concat (map (\<lambda>dm.
        if \<not> fst (mx_exists e dm) then []
        else email_rows e ag u fullname (''https://'' @ dm) ''guess_personal''
               (sorted_list_of_set (guess_emails fullname dm))) doms)"

text \<open>The body of the loop over the user names: the rows written for one user.\<close>

definition process_user :: "env \<Rightarrow> args \<Rightarrow> string \<Rightarrow> row list" where
  "process_user e ag u =
     (case profile_of e u of
        Raises x \<Rightarrow> [make_row u '''' '''' '''' ''error'' '''' '''' (''profile_error:'' @ x)]
      | Returns p \<Rightarrow>
          (let fullname = or_empty (pf_full_name p);
               bio = or_empty (pf_biography p);
               ext_url = or_empty (pf_external_url p);
               bio_rows = email_rows e ag u fullname ext_url ''bio''
                            (set_order e (extract_emails_from_text bio))
           in if ext_url = [] then bio_rows
              else
                (let (site_emails, links, nt) =
                       fst (extract_emails_and_links_from_url e ext_url (max_site_bytes ag));
                     site_rows = email_rows e ag u fullname ext_url ''site''
                                   (set_order e site_emails);
                     candidates = candidate_domains_loop e [] (set_order e links);
                     (deep_rows, personal) = deep_crawl e ag u fullname 0 candidates
                 in bio_rows @ site_rows @ deep_rows @
                    guess_rows e ag u fullname (set_order e personal))))"

definition run :: "env \<Rightarrow> args \<Rightarrow> string list \<Rightarrow> row list" where
  "run e ag users = concat (map (process_user e ag) users)"

subsection \<open>A small environment\<close>

text \<open>
  One profile, whose link page points to a personal site and to a social platform, a
  mail domain with one MX host, and a page with a reference on which \<open>urljoin\<close> raises;
  used to run the model on concrete input.
\<close>

definition demo_profile :: "string \<Rightarrow> profile outcome" where
  "demo_profile u =
     (if u = ''alice''
      then Returns \<lparr>pf_full_name = Some ''Alice Lee'',
                    pf_biography = Some ''write to alice [at] alice.dev'',
                    pf_external_url = Some ''https://linktr.ee/alice''\<rparr>
      else if u = ''bob''
      then Returns \<lparr>pf_full_name = Some ''Bob Ray'', pf_biography = None,
                    pf_external_url = Some ''https://broken.test/''\<rparr>
      else Raises ''ProfileNotExistsException'')"

definition demo_head :: "string \<Rightarrow> string option outcome" where
  "demo_head url =
     (if url = ''https://big.test/'' then Returns (Some ''5000000'')
      else Returns None)"

definition demo_get :: "string \<Rightarrow> response outcome" where
  "demo_get url =
     (if url = ''https://linktr.ee/alice''
      then Returns \<lparr>status_code = 200, final_url = url,
                    parsed = Returns \<lparr>visible_text = ''Alice Lee'', meta_contents = [],
                                       anchor_hrefs = [''https://alice.dev/contact'',
                                                       ''https://instagram.com/alice'',
                                                       ''#top'']\<rparr>\<rparr>
      else if url = ''https://alice.dev/contact''
      then Returns \<lparr>status_code = 200, final_url = url,
                    parsed = Returns \<lparr>visible_text = ''Contact'', meta_contents = [],
                                       anchor_hrefs = [''mailto:hello@alice.dev?subject=hi'']\<rparr>\<rparr>
      else if url = ''https://broken.test/''
      then Returns \<lparr>status_code = 200, final_url = url,
                    parsed = Returns \<lparr>visible_text = ''mail bob@broken.test'', meta_contents = [],
                                       anchor_hrefs = [''/about'', ''http://[bad'']\<rparr>\<rparr>
      else Returns \<lparr>status_code = 404, final_url = url, parsed = Raises ''ParserError''\<rparr>)"

definition demo_urljoin :: "string \<Rightarrow> string \<Rightarrow> string outcome" where
  "demo_urljoin base href =
     (if href = ''http://[bad'' then Raises ''ValueError''
      else if prefix ''/'' href then Returns (''https://broken.test'' @ href)
      else Returns href)"

definition demo_mx :: "string \<Rightarrow> string list outcome" where
  "demo_mx d = (if d = ''alice.dev'' then Returns [''mx.alice.dev''] else Raises ''NXDOMAIN'')"

definition demo_tld :: "string \<Rightarrow> string \<times> string" where
  "demo_tld url =
     (if url = ''https://alice.dev/contact'' then (''alice'', ''dev'')
      else if url = ''https://instagram.com/alice'' then (''instagram'', ''com'')
      else ('''', ''''))"

definition demo_env :: env where
  "demo_env =
     \<lparr>profile_of = demo_profile, http_head = demo_head, http_get = demo_get,
      dns_mx = demo_mx, smtp_rcpt = (\<lambda>host em. Reply 250), tld_extract = demo_tld,
      urljoin = demo_urljoin, set_order = sorted_list_of_set\<rparr>"

definition demo_args :: args where
  "demo_args = \<lparr>max_site_bytes = 1000000, smtp_verify = True, max_deep_links = 5\<rparr>"

section \<open>Facts about the reducer\<close>

lemma priority_value_spec_rank: "priority_value s = spec_rank s"
  by (simp add: priority_value_def spec_rank_def PRIORITY_def)

lemma clean_rows_filter:
  "clean_rows rows = filter (\<lambda>r. \<not> is_error_row r \<and> is_valid_email (email r)) rows"
  by (induction rows) auto

lemma list_all_update:
  "P (k, v) \<Longrightarrow> list_all P al \<Longrightarrow> list_all P (AList.update k v al)"
  by (induction al) auto

lemma best_inv_update:
  "best_inv best \<Longrightarrow> best_inv (AList.update (username r) r best)"
  by (simp add: best_inv_def AList.distinct_update list_all_update)

lemma best_inv_loop: "best_inv best \<Longrightarrow> best_inv (select_best_loop best rows)"
proof (induction best rows rule: select_best_loop.induct)
  case (1 best)
  then show ?case by simp
next
  case (2 best r rows)
  then show ?case
    by (cases "map_of best (username r)") (simp_all add: best_inv_update)
qed

lemma keys_update_present:
  "map_of best k = Some cur \<Longrightarrow> fst ` set (AList.update k v best) = fst ` set best"
proof -
  assume "map_of best k = Some cur"
  then have "k \<in> fst ` set best"
    by (metis map_of_eq_None_iff option.distinct(1))
  then show ?thesis by (auto simp: AList.dom_update)
qed

lemma keys_loop:
  "fst ` set (select_best_loop best rows) = fst ` set best \<union> username ` set rows"
proof (induction best rows rule: select_best_loop.induct)
  case (1 best)
  then show ?case by simp
next
  case (2 best r rows)
  show ?case
  proof (cases "map_of best (username r)")
    case None
    then show ?thesis using 2(1)[OF refl None] by (simp add: AList.dom_update)
  next
    case (Some cur)
    have k: "username r \<in> fst ` set best"
      using Some by (metis map_of_eq_None_iff option.distinct(1))
    show ?thesis
    proof (cases "priority_value (source r) < priority_value (source cur)")
      case True
      then show ?thesis
        using 2(2)[OF refl Some True] Some k keys_update_present[OF Some]
        by (simp add: insert_absorb)
    next
      case False
      then show ?thesis
        using 2(3)[OF refl Some False] Some k by (simp add: insert_absorb)
    qed
  qed
qed

lemma values_update: "snd ` set (AList.update k v best) \<subseteq> insert v (snd ` set best)"
  by (induction best) auto

lemma values_loop:
  "snd ` set (select_best_loop best rows) \<subseteq> snd ` set best \<union> set rows"
proof (induction best rows rule: select_best_loop.induct)
  case (1 best)
  then show ?case by simp
next
  case (2 best r rows)
  note upd = values_update[of "username r" r best]
  show ?case
  proof (cases "map_of best (username r)")
    case None
    then show ?thesis using 2(1)[OF refl None] upd by simp blast
  next
    case (Some cur)
    show ?thesis
    proof (cases "priority_value (source r) < priority_value (source cur)")
      case True
      then show ?thesis using 2(2)[OF refl Some True] Some upd by simp blast
    next
      case False
      then show ?thesis using 2(3)[OF refl Some False] Some by simp blast
    qed
  qed
qed

lemma spec_best_for_Cons:
  "spec_best_for u (r # rows) =
     (if username r = u then Some (spec_running_best r (filter (\<lambda>r. username r = u) rows))
      else spec_best_for u rows)"
  by (simp add: spec_best_for_def)

lemma map_of_loop:
  "map_of (select_best_loop best rows) u =
     (case map_of best u of
        None \<Rightarrow> spec_best_for u rows
      | Some b \<Rightarrow> Some (spec_running_best b (filter (\<lambda>r. username r = u) rows)))"
proof (induction best rows rule: select_best_loop.induct)
  case (1 best)
  then show ?case by (simp add: spec_best_for_def split: option.splits)
next
  case (2 best r rows)
  show ?case
  proof (cases "map_of best (username r)")
    case None
    then show ?thesis
      using 2(1)[OF refl None]
      by (auto simp: AList.update_conv' spec_best_for_Cons split: option.splits)
  next
    case (Some cur)
    show ?thesis
    proof (cases "priority_value (source r) < priority_value (source cur)")
      case True
      then show ?thesis
        using 2(2)[OF refl Some True] Some
        by (auto simp: AList.update_conv' priority_value_spec_rank spec_best_for_Cons split: option.splits)
    next
      case False
      then show ?thesis
        using 2(3)[OF refl Some False] Some
        by (auto simp: priority_value_spec_rank spec_best_for_Cons split: option.splits)
    qed
  qed
qed

lemma find_values:
  "best_inv best \<Longrightarrow> find (\<lambda>r. username r = u) (map snd best) = map_of best u"
  by (induction best) (auto simp: best_inv_def)

lemma best_inv_Nil: "best_inv []"
  by (simp add: best_inv_def)

lemma usernames_values: "best_inv best \<Longrightarrow> map username (map snd best) = map fst best"
  by (induction best) (auto simp: best_inv_def)

lemma select_best_find: "find (\<lambda>r. username r = u) (select_best rows) = spec_best_for u rows"
  using find_values[OF best_inv_loop[OF best_inv_Nil], of u rows]
  by (simp add: select_best_def map_of_loop)

lemma select_best_distinct: "distinct (map username (select_best rows))"
proof -
  have inv: "best_inv (select_best_loop [] rows)"
    by (rule best_inv_loop[OF best_inv_Nil])
  have "map username (select_best rows) = map fst (select_best_loop [] rows)"
    unfolding select_best_def by (rule usernames_values[OF inv])
  moreover have "distinct (map fst (select_best_loop [] rows))"
    using inv unfolding best_inv_def by blast
  ultimately show ?thesis by metis
qed

lemma select_best_subset: "set (select_best rows) \<subseteq> set rows"
  using values_loop[of "[]" rows] by (simp add: select_best_def)

lemma select_best_usernames: "username ` set (select_best rows) = username ` set rows"
proof -
  have "username ` set (select_best rows) = set (map username (select_best rows))" by simp
  also have "\<dots> = set (map fst (select_best_loop [] rows))"
    using usernames_values[OF best_inv_loop[OF best_inv_Nil], of rows]
    by (simp add: select_best_def)
  also have "\<dots> = username ` set rows"
    using keys_loop[of "[]" rows] by simp
  finally show ?thesis .
qed

lemma py_strip_empty: "py_strip s = [] \<longleftrightarrow> (\<forall>c\<in>set s. is_space c)"
proof -
  have "py_strip s = [] \<longleftrightarrow> dropWhile is_space (rev (dropWhile is_space s)) = []"
    by (simp add: py_strip_def)
  also have "\<dots> \<longleftrightarrow> (\<forall>c\<in>set (dropWhile is_space s). is_space c)"
    by (simp add: dropWhile_eq_Nil_conv)
  also have "\<dots> \<longleftrightarrow> (\<forall>c\<in>set s. is_space c)"
  proof
    assume a: "\<forall>c\<in>set (dropWhile is_space s). is_space c"
    show "\<forall>c\<in>set s. is_space c"
    proof (cases "dropWhile is_space s")
      case Nil
      then show ?thesis by (simp add: dropWhile_eq_Nil_conv)
    next
      case (Cons x xs)
      then have "\<not> is_space x" using hd_dropWhile[of is_space s] by simp
      moreover have "x \<in> set (dropWhile is_space s)" using Cons by simp
      ultimately show ?thesis using a by blast
    qed
  next
    assume "\<forall>c\<in>set s. is_space c"
    then show "\<forall>c\<in>set (dropWhile is_space s). is_space c"
      using set_dropWhileD by fastforce
  qed
  finally show ?thesis .
qed

lemma at_not_space: "\<not> is_space (CHR ''@'')"
  by (simp add: is_space_def)

lemma is_valid_email_iff:
  "is_valid_email em \<longleftrightarrow> CHR ''@'' \<in> set em \<and> \<not> py_in ''example.com'' (py_lower em)"
proof (cases "CHR ''@'' \<in> set em")
  case True
  then have "em \<noteq> []" by auto
  moreover have "py_strip em \<noteq> []"
    using True at_not_space py_strip_empty by blast
  ultimately show ?thesis using True by (simp add: is_valid_email_def)
next
  case False
  then show ?thesis by (simp add: is_valid_email_def)
qed

lemma py_split_on_nonempty: "py_split_on c s \<noteq> []"
  by (induction s) (auto split: list.splits)

lemma split_single: "py_split_on c s = [w] \<Longrightarrow> s = w"
proof (induction s arbitrary: w)
  case Nil
  then show ?case by simp
next
  case (Cons x xs)
  show ?case
  proof (cases "x = c")
    case True
    then show ?thesis using Cons.prems py_split_on_nonempty[of c xs] by simp
  next
    case False
    obtain v vs where vs: "py_split_on c xs = v # vs"
      using py_split_on_nonempty[of c xs] by (cases "py_split_on c xs") auto
    then have "vs = []" and "w = x # v" using Cons.prems False by simp_all
    then show ?thesis using Cons.IH[of v] vs by simp
  qed
qed

lemma suffix_last_split: "suffix (last (py_split_on c s)) s"
proof (induction s)
  case Nil
  then show ?case by simp
next
  case (Cons x xs)
  obtain v vs where vs: "py_split_on c xs = v # vs"
    using py_split_on_nonempty[of c xs] by (cases "py_split_on c xs") auto
  show ?case
  proof (cases "x = c")
    case True
    then show ?thesis using Cons vs by (simp add: suffix_Cons)
  next
    case False
    show ?thesis
    proof (cases vs)
      case Nil
      then have "xs = v" using vs split_single by blast
      then show ?thesis using False vs Nil by simp
    next
      case (Cons a as)
      then show ?thesis using False vs Cons.IH by (simp add: suffix_Cons)
    qed
  qed
qed

lemma domain_part_sublist:
  "py_lower (domain_part em) = d \<Longrightarrow> py_in d (py_lower em)"
proof -
  assume d: "py_lower (domain_part em) = d"
  have "suffix (domain_part em) em"
    unfolding domain_part_def by (rule suffix_last_split)
  then obtain pre where "em = pre @ domain_part em"
    by (auto simp: suffix_def)
  then have "py_lower em = py_lower pre @ d"
    using d by (metis map_append py_lower_def)
  then show ?thesis by (simp add: py_in_def)
qed


lemma lower_user_au: "py_lower ''user@example.com.au'' = ''user@example.com.au''"
  by (simp add: py_lower_def py_lower_char_def)

lemma in_user_au: "py_in ''example.com'' ''user@example.com.au''"
  by (simp add: py_in_def sublist_code prefix_code)

section \<open>Facts about the text functions\<close>

lemma py_lower_char_space: "is_space (py_lower_char c) = is_space c"
proof -
  have "of_char (char_of (of_char c + 32 :: nat)) = ((of_char c + 32) mod 256 :: nat)"
    by simp
  moreover have "(of_char c :: nat) < 256" by simp
  ultimately show ?thesis
    unfolding py_lower_char_def is_space_def Let_def
    by (auto simp del: of_char_of)
qed

lemma split_ws_acc_nonempty:
  "acc \<noteq> [] \<or> (\<exists>c\<in>set s. \<not> is_space c) \<Longrightarrow> py_split_ws_acc acc s \<noteq> []"
  by (induction acc s rule: py_split_ws_acc.induct) auto

lemma split_ws_acc_tokens:
  "p \<in> set (py_split_ws_acc acc s) \<Longrightarrow> p \<noteq> []"
  by (induction acc s rule: py_split_ws_acc.induct) (auto split: if_splits)

lemma py_strip_has_char: "py_strip s \<noteq> [] \<Longrightarrow> \<exists>c\<in>set (py_strip s). \<not> is_space c"
proof -
  assume a: "py_strip s \<noteq> []"
  then have "dropWhile is_space (rev (dropWhile is_space s)) \<noteq> []"
    by (simp add: py_strip_def)
  then have "\<not> is_space (hd (dropWhile is_space (rev (dropWhile is_space s))))"
    using hd_dropWhile by blast
  moreover have "hd (dropWhile is_space (rev (dropWhile is_space s))) \<in> set (py_strip s)"
    using a by (simp add: py_strip_def)
  ultimately show ?thesis by blast
qed

lemma name_parts_nonempty:
  "py_lower (py_strip (filter (\<lambda>c. is_ascii_alpha c \<or> is_space c) fullname)) \<noteq> []
   \<Longrightarrow> name_parts fullname \<noteq> []"
proof -
  let ?y = "py_strip (filter (\<lambda>c. is_ascii_alpha c \<or> is_space c) fullname)"
  assume "py_lower ?y \<noteq> []"
  then have "?y \<noteq> []" by (simp add: py_lower_def)
  then obtain c where c: "c \<in> set ?y" "\<not> is_space c"
    using py_strip_has_char by blast
  then have "py_lower_char c \<in> set (py_lower ?y)" "\<not> is_space (py_lower_char c)"
    by (simp_all add: py_lower_def py_lower_char_space)
  then have ne: "py_split_ws (py_lower ?y) \<noteq> []"
    unfolding py_split_ws_def using split_ws_acc_nonempty by blast
  have "filter (\<lambda>p. p \<noteq> []) (py_split_ws (py_lower ?y)) = py_split_ws (py_lower ?y)"
    unfolding py_split_ws_def using split_ws_acc_tokens by (simp add: filter_id_conv)
  then show ?thesis using ne by (simp add: name_parts_def)
qed

lemma name_parts_tokens: "p \<in> set (name_parts fullname) \<Longrightarrow> p \<noteq> []"
  by (simp add: name_parts_def)

lemma name_parts_Nil:
  "py_lower (py_strip (filter (\<lambda>c. is_ascii_alpha c \<or> is_space c) fullname)) = []
   \<Longrightarrow> name_parts fullname = []"
  by (simp add: name_parts_def py_split_ws_def)

lemma guess_bases_two:
  "first \<noteq> [] \<Longrightarrow> lst \<noteq> [] \<Longrightarrow>
   guess_bases (first # mid @ [lst]) =
     [first @ ''.'' @ lst, first @ lst, [hd first] @ lst, first @ [hd lst],
      first @ ''_'' @ lst, first @ ''-'' @ lst, first]"
  by (cases first; cases lst) (simp_all add: guess_bases_def Let_def)

section \<open>Facts about the patterns\<close>

lemma star_skip:
  "(\<And>c. p c \<Longrightarrow> \<not> q c) \<Longrightarrow>
   match_seq (Star p # Cls q # rs) s = match_seq (Cls q # rs) (dropWhile p s)"
proof (induction s)
  case Nil
  then show ?case by simp
next
  case (Cons c cs)
  show ?case
  proof (cases "p c")
    case True
    then have "\<not> q c" using Cons.prems by blast
    then show ?thesis
      using True Cons.IH[OF Cons.prems] by (simp split: option.splits)
  next
    case False
    then show ?thesis by simp
  qed
qed

lemma star_end: "match_seq [Star p] s = Some (dropWhile p s)"
  by (induction s) auto

lemma plus_skip:
  "(\<And>c. p c \<Longrightarrow> \<not> q c) \<Longrightarrow>
   match_seq (Plus p # Cls q # rs) s =
     (if takeWhile p s = [] then None else match_seq (Cls q # rs) (dropWhile p s))"
  by (cases s) (simp_all add: star_skip)

lemma plus_end:
  "match_seq [Plus p] s = (if takeWhile p s = [] then None else Some (dropWhile p s))"
  by (cases s) (simp_all add: star_end)

lemma at_not_local: "local_char c \<Longrightarrow> c \<noteq> CHR ''@''"
  by (auto simp: local_char_def is_ascii_alnum_def is_ascii_alpha_def is_ascii_digit_def)

lemma dot_not_label: "label_char c \<Longrightarrow> c \<noteq> CHR ''.''"
  by (auto simp: label_char_def is_ascii_alnum_def is_ascii_alpha_def is_ascii_digit_def)

lemma email_match_closed:
  "match_seq EMAIL_REGEX s =
     (if takeWhile local_char s = [] then None
      else (case dropWhile local_char s of
              [] \<Rightarrow> None
            | a # s2 \<Rightarrow>
                if a \<noteq> CHR ''@'' then None
                else if takeWhile label_char s2 = [] then None
                else (case dropWhile label_char s2 of
                        [] \<Rightarrow> None
                      | b # s4 \<Rightarrow>
                          if b \<noteq> CHR ''.'' then None
                          else if takeWhile tail_char s4 = [] then None
                          else Some (dropWhile tail_char s4))))"
proof -
  have 1: "match_seq EMAIL_REGEX s =
      (if takeWhile local_char s = [] then None
       else match_seq [lit (CHR ''@''), Plus label_char, lit (CHR ''.''), Plus tail_char]
              (dropWhile local_char s))"
    unfolding EMAIL_REGEX_def lit_def
    by (rule plus_skip) (simp add: at_not_local)
  have 2: "match_seq [Plus label_char, lit (CHR ''.''), Plus tail_char] s2 =
      (if takeWhile label_char s2 = [] then None
       else match_seq [lit (CHR ''.''), Plus tail_char] (dropWhile label_char s2))" for s2
    unfolding lit_def
    by (rule plus_skip) (simp add: dot_not_label)
  show ?thesis
  proof (cases "dropWhile local_char s")
    case Nil
    show ?thesis unfolding 1 Nil by (simp add: lit_def)
  next
    case s1: (Cons a s2)
    show ?thesis
    proof (cases "dropWhile label_char s2")
      case Nil
      show ?thesis
        unfolding 1 s1 list.case by (simp add: lit_def 2[unfolded lit_def] Nil)
    next
      case (Cons b s4)
      show ?thesis
        unfolding 1 s1 list.case by (simp add: lit_def 2[unfolded lit_def] plus_end Cons)
    qed
  qed
qed


lemma while_all:
  "\<forall>c\<in>set xs. P c \<Longrightarrow> ys = [] \<or> \<not> P (hd ys) \<Longrightarrow>
   takeWhile P (xs @ ys) = xs \<and> dropWhile P (xs @ ys) = ys"
  by (induction xs) (auto simp: takeWhile_eq_Nil_iff dropWhile_eq_self_iff)

lemma match_parts:
  assumes "match_seq EMAIL_REGEX s = Some r"
  shows "\<exists>l d t. s = l @ CHR ''@'' # d @ CHR ''.'' # t @ r \<and>
           l \<noteq> [] \<and> (\<forall>c\<in>set l. local_char c) \<and>
           d \<noteq> [] \<and> (\<forall>c\<in>set d. label_char c) \<and>
           t \<noteq> [] \<and> (\<forall>c\<in>set t. tail_char c) \<and>
           (r = [] \<or> \<not> tail_char (hd r))"
proof -
  let ?l = "takeWhile local_char s"
  from assms have l: "?l \<noteq> []"
    by (simp add: email_match_closed split: if_splits)
  from assms l obtain s2 where s2: "dropWhile local_char s = CHR ''@'' # s2"
    by (cases "dropWhile local_char s") (auto simp: email_match_closed split: if_splits)
  let ?d = "takeWhile label_char s2"
  from assms l s2 have d: "?d \<noteq> []"
    by (simp add: email_match_closed split: if_splits)
  from assms l s2 d obtain s4 where s4: "dropWhile label_char s2 = CHR ''.'' # s4"
    by (cases "dropWhile label_char s2") (auto simp: email_match_closed split: if_splits)
  let ?t = "takeWhile tail_char s4"
  from assms l s2 d s4 have t: "?t \<noteq> []" and r: "r = dropWhile tail_char s4"
    by (simp_all add: email_match_closed split: if_splits)
  have "s = ?l @ dropWhile local_char s" by simp
  also have "\<dots> = ?l @ CHR ''@'' # (?d @ dropWhile label_char s2)"
    unfolding s2 by simp
  also have "\<dots> = ?l @ CHR ''@'' # ?d @ CHR ''.'' # (?t @ dropWhile tail_char s4)"
    unfolding s4 by simp
  finally have eq: "s = ?l @ CHR ''@'' # ?d @ CHR ''.'' # ?t @ r"
    using r by simp
  have "r = [] \<or> \<not> tail_char (hd r)"
    unfolding r using hd_dropWhile[of tail_char s4] by blast
  moreover have "\<forall>c\<in>set ?l. local_char c" "\<forall>c\<in>set ?d. label_char c"
    "\<forall>c\<in>set ?t. tail_char c"
    by (auto dest: set_takeWhileD)
  ultimately show ?thesis using eq l d t by blast
qed

lemma parts_match:
  assumes "l \<noteq> []" "\<forall>c\<in>set l. local_char c" "d \<noteq> []" "\<forall>c\<in>set d. label_char c"
    "t \<noteq> []" "\<forall>c\<in>set t. tail_char c" "r = [] \<or> \<not> tail_char (hd r)"
  shows "match_seq EMAIL_REGEX (l @ CHR ''@'' # d @ CHR ''.'' # t @ r) = Some r"
proof -
  have 1: "takeWhile local_char (l @ CHR ''@'' # d @ CHR ''.'' # t @ r) = l"
    "dropWhile local_char (l @ CHR ''@'' # d @ CHR ''.'' # t @ r) = CHR ''@'' # d @ CHR ''.'' # t @ r"
    using while_all[of l local_char "CHR ''@'' # d @ CHR ''.'' # t @ r"] assms(2) at_not_local
    by auto
  have 2: "takeWhile label_char (d @ CHR ''.'' # t @ r) = d"
    "dropWhile label_char (d @ CHR ''.'' # t @ r) = CHR ''.'' # t @ r"
    using while_all[of d label_char "CHR ''.'' # t @ r"] assms(4) dot_not_label
    by auto
  have 3: "takeWhile tail_char (t @ r) = t" "dropWhile tail_char (t @ r) = r"
    using while_all[of t tail_char r] assms(6,7) by auto
  show ?thesis
    unfolding email_match_closed 1 2 3 list.case using assms(1,3,5) by (simp add: 2 3)
qed

lemma match_shaped:
  assumes "match_seq EMAIL_REGEX s = Some r"
  shows "email_shaped (matched s r) \<and> s = matched s r @ r \<and> length r < length s"
proof -
  obtain l d t where p: "s = l @ CHR ''@'' # d @ CHR ''.'' # t @ r"
    "l \<noteq> []" "\<forall>c\<in>set l. local_char c" "d \<noteq> []" "\<forall>c\<in>set d. label_char c"
    "t \<noteq> []" "\<forall>c\<in>set t. tail_char c"
    using match_parts[OF assms] by blast
  have m: "matched s r = l @ CHR ''@'' # d @ CHR ''.'' # t"
    unfolding matched_def p(1) by simp
  have "match_seq EMAIL_REGEX (l @ CHR ''@'' # d @ CHR ''.'' # t @ []) = Some []"
    by (rule parts_match) (use p in auto)
  then have "email_shaped (matched s r)" by (simp add: email_shaped_def m)
  then show ?thesis using m p(1) by simp
qed

lemma shaped_match:
  assumes "email_shaped m" "r = [] \<or> \<not> tail_char (hd r)"
  shows "match_seq EMAIL_REGEX (m @ r) = Some r"
proof -
  obtain l d t where p: "m = l @ CHR ''@'' # d @ CHR ''.'' # t @ []"
    "l \<noteq> []" "\<forall>c\<in>set l. local_char c" "d \<noteq> []" "\<forall>c\<in>set d. label_char c"
    "t \<noteq> []" "\<forall>c\<in>set t. tail_char c"
    using match_parts[of m "[]"] assms(1) unfolding email_shaped_def by blast
  have "match_seq EMAIL_REGEX (l @ CHR ''@'' # d @ CHR ''.'' # t @ r) = Some r"
    by (rule parts_match) (use p assms(2) in auto)
  then show ?thesis using p(1) by simp
qed

lemma shaped_chars:
  assumes "email_shaped m"
  shows "list_all address_char m \<and> 5 \<le> length m"
proof -
  obtain l d t where p: "m = l @ CHR ''@'' # d @ CHR ''.'' # t @ []"
    "l \<noteq> []" "\<forall>c\<in>set l. local_char c" "d \<noteq> []" "\<forall>c\<in>set d. label_char c"
    "t \<noteq> []" "\<forall>c\<in>set t. tail_char c"
    using match_parts[of m "[]"] assms(1) unfolding email_shaped_def by blast
  have "length l \<ge> 1" "length d \<ge> 1" "length t \<ge> 1"
    using p(2,4,6) by (simp_all add: Suc_leI)
  then have "5 \<le> length m" unfolding p(1) by simp
  moreover have "list_all address_char m"
    unfolding p(1) using p(3,5,7)
    by (auto simp: list_all_iff address_char_def local_char_def label_char_def tail_char_def)
  ultimately show ?thesis by blast
qed

lemma finditer_match:
  "match_seq EMAIL_REGEX s = Some r \<Longrightarrow> email_finditer s = matched s r # email_finditer r"
proof -
  assume a: "match_seq EMAIL_REGEX s = Some r"
  then have "length r < length s" using match_shaped by blast
  then show ?thesis using a by (cases s) simp_all
qed

lemma finditer_skip:
  "\<not> local_char c \<Longrightarrow> email_finditer (c # cs) = email_finditer cs"
  by (simp add: email_match_closed)

lemma finditer_shaped: "m \<in> set (email_finditer s) \<Longrightarrow> email_shaped m"
proof (induction s rule: email_finditer.induct)
  case 1
  then show ?case by simp
next
  case (2 c cs)
  show ?case
  proof (cases "match_seq EMAIL_REGEX (c # cs)")
    case None
    then show ?thesis using 2 by simp
  next
    case (Some r)
    have lt: "length r < length (c # cs)" using match_shaped[OF Some] by blast
    have "m = matched (c # cs) r \<or> m \<in> set (email_finditer r)"
      using 2(4) Some lt by simp
    then show ?thesis
      using match_shaped[OF Some] 2(2)[OF Some lt] by blast
  qed
qed

lemma join_starts: "\<exists>r. py_join sep (y # ys) = y @ r"
  by (cases ys) auto

lemma blank_not_tail: "\<not> tail_char (CHR '' '')" and blank_not_local: "\<not> local_char (CHR '' '')"
  by (simp_all add: tail_char_def local_char_def is_ascii_alnum_def is_ascii_alpha_def
      is_ascii_digit_def)

lemma finditer_join:
  "\<forall>e\<in>set es. email_shaped e \<Longrightarrow> email_finditer (py_join '' '' es) = es"
proof (induction "'' ''" es rule: py_join.induct)
  case 1
  then show ?case by simp
next
  case (2 x)
  then have "match_seq EMAIL_REGEX (x @ []) = Some []"
    using shaped_match[of x "[]"] by simp
  then have "email_finditer x = matched x [] # email_finditer []"
    using finditer_match[of x "[]"] by simp
  then show ?case by (simp add: matched_def)
next
  case (3 x y ys)
  let ?J = "py_join '' '' (y # ys)"
  have m: "match_seq EMAIL_REGEX (x @ CHR '' '' # ?J) = Some (CHR '' '' # ?J)"
    using shaped_match[of x "CHR '' '' # ?J"] 3(2) blank_not_tail by simp
  have "email_finditer (x @ CHR '' '' # ?J) = matched (x @ CHR '' '' # ?J) (CHR '' '' # ?J)
      # email_finditer (CHR '' '' # ?J)"
    by (rule finditer_match[OF m])
  also have "matched (x @ CHR '' '' # ?J) (CHR '' '' # ?J) = x"
    by (simp add: matched_def)
  also have "email_finditer (CHR '' '' # ?J) = email_finditer ?J"
    by (rule finditer_skip[OF blank_not_local])
  also have "email_finditer ?J = y # ys"
    using 3 by simp
  finally show ?case by simp
qed

lemma address_char_facts:
  "address_char c \<Longrightarrow> \<not> is_space c \<and> c \<noteq> CHR ''['' \<and> c \<noteq> CHR ''('' \<and> c \<noteq> CHR '' ''"
  by (auto simp: address_char_def local_char_def is_ascii_alnum_def is_ascii_alpha_def
      is_ascii_digit_def is_space_def Let_def)

lemma blank_space: "is_space (CHR '' '')"
  by (simp add: is_space_def)

lemma star_lit:
  "\<not> is_space x \<Longrightarrow>
   match_seq (Star is_space # lit x # rs) s = match_seq (lit x # rs) (dropWhile is_space s)"
  unfolding lit_def by (rule star_skip) auto

lemma star_lit_i:
  "\<not> is_space x \<Longrightarrow>
   match_seq (Star is_space # lit_i x # rs) s = match_seq (lit_i x # rs) (dropWhile is_space s)"
  unfolding lit_i_def by (rule star_skip) (use py_lower_char_space in blast)

lemma bracket_not_space: "\<not> is_space (CHR ''['')" "\<not> is_space (CHR ''('')"
  "\<not> is_space (CHR ''a'')" "\<not> is_space (CHR ''d'')"
  by (simp_all add: is_space_def)

lemma no_match_address:
  assumes "address_char c"
  shows "match_alt OBFUSCATION (c # cs) = None"
proof -
  have f: "\<not> is_space c" "c \<noteq> CHR ''[''" "c \<noteq> CHR ''(''"
    using address_char_facts[OF assms] by auto
  show ?thesis
    unfolding OBFUSCATION_def
    by (simp add: star_lit bracket_not_space f lit_def)
qed

lemma no_match_blank:
  assumes "address_char c1" "address_char c2" "address_char c3" "address_char c4"
  shows "match_alt OBFUSCATION (CHR '' '' # c1 # c2 # c3 # c4 # cs) = None"
proof -
  have f: "\<not> is_space c1" "c1 \<noteq> CHR ''[''" "c1 \<noteq> CHR ''(''"
    "\<not> is_space c3" "\<not> is_space c4"
    using address_char_facts assms by auto
  show ?thesis
    unfolding OBFUSCATION_def
    by (simp add: star_lit star_lit_i bracket_not_space blank_space f lit_def lit_i_def)
qed

lemma calm_no_match: "calm (c # cs) \<Longrightarrow> match_alt OBFUSCATION (c # cs) = None"
proof -
  assume a: "calm (c # cs)"
  show ?thesis
  proof (cases "address_char c")
    case True
    then show ?thesis by (rule no_match_address)
  next
    case False
    then have c: "c = CHR '' ''" and l: "4 \<le> length cs" and
      al: "list_all address_char (take 4 cs)"
      using a by auto
    then obtain c1 c2 c3 c4 rest where cs: "cs = c1 # c2 # c3 # c4 # rest"
      by (cases cs; cases "tl cs"; cases "tl (tl cs)"; cases "tl (tl (tl cs))") auto
    then show ?thesis
      using al c no_match_blank[of c1 c2 c3 c4 rest] by simp
  qed
qed

lemma obf_sub_calm: "calm s \<Longrightarrow> obf_sub s = s"
proof (induction s)
  case Nil
  then show ?case by simp
next
  case (Cons c cs)
  then show ?case using calm_no_match[OF Cons.prems] by simp
qed

lemma calm_chars: "calm s \<Longrightarrow> c \<in> set s \<Longrightarrow> address_char c \<or> c = CHR '' ''"
  by (induction s) auto

lemma py_replace_absent: "x \<in> set old \<Longrightarrow> x \<notin> set s \<Longrightarrow> py_replace old new s = s"
proof (induction s)
  case Nil
  then show ?case by simp
next
  case (Cons c cs)
  have "\<not> prefix old (c # cs)"
    using Cons.prems set_mono_prefix by fastforce
  then show ?case using Cons by simp
qed

lemma clean_calm: "calm s \<Longrightarrow> clean_obfuscated_email s = s"
proof -
  assume a: "calm s"
  have b: "CHR ''['' \<notin> set s" "CHR ''('' \<notin> set s"
    using calm_chars[OF a] address_char_facts by (fastforce)+
  have "py_replace '' [at] '' ''@'' s = s" "py_replace '' (at) '' ''@'' s = s"
    "py_replace '' [dot] '' ''.'' s = s" "py_replace '' (dot) '' ''.'' s = s"
    using b by (simp_all add: py_replace_absent[of "CHR ''[''"] py_replace_absent[of "CHR ''(''"])
  then show ?thesis
    by (simp add: clean_obfuscated_email_def obf_sub_calm[OF a])
qed

lemma calm_append:
  "list_all address_char a \<Longrightarrow> calm b \<Longrightarrow> calm (a @ b)"
  by (induction a) auto

lemma calm_blank:
  "list_all address_char a \<Longrightarrow> 4 \<le> length a \<Longrightarrow> calm (a @ b) \<Longrightarrow> calm (CHR '' '' # a @ b)"
  by (simp add: list_all_iff) (meson in_set_takeD)

lemma calm_join: "\<forall>e\<in>set es. email_shaped e \<Longrightarrow> calm (py_join '' '' es)"
proof (induction "'' ''" es rule: py_join.induct)
  case 1
  then show ?case by simp
next
  case (2 x)
  then show ?case using calm_append[of x "[]"] shaped_chars[of x] by simp
next
  case (3 x y ys)
  obtain r where r: "py_join '' '' (y # ys) = y @ r" using join_starts by blast
  have y: "list_all address_char y" "4 \<le> length y"
    using shaped_chars[of y] 3(2) by auto
  have "calm (y @ r)" using 3 r by simp
  then have "calm (CHR '' '' # y @ r)" using calm_blank[OF y] by simp
  then have "calm (x @ CHR '' '' # y @ r)"
    using calm_append[of x] shaped_chars[of x] 3(2) by simp
  then show ?case using r by simp
qed

text \<open>
  A match takes at least one character for each item that is not under a star, so the tests
  on the lengths in \<open>obf_sub\<close> and \<open>email_finditer\<close> never fail.
\<close>

lemma match_seq_length:
  "match_seq rs s = Some r \<Longrightarrow>
   length r + length (filter (\<lambda>x. case x of Star p \<Rightarrow> False | _ \<Rightarrow> True) rs) \<le> length s"
proof (induction rs s arbitrary: r rule: match_seq.induct)
  case (7 p rs c cs)
  show ?case
  proof (cases "p c")
    case True
    show ?thesis
    proof (cases "match_seq (Star p # rs) cs")
      case None
      then show ?thesis using 7(2)[OF True None] 7(4) True by simp
    next
      case (Some r')
      then show ?thesis using 7(1)[OF True, of r] 7(4) True by simp
    qed
  next
    case False
    then show ?thesis using 7(3)[OF False] 7(4) by simp
  qed
qed (auto split: if_splits)

lemma obfuscation_match_shorter:
  "match_alt OBFUSCATION s = Some r \<Longrightarrow> length r < length s"
proof -
  assume a: "match_alt OBFUSCATION s = Some r"
  then obtain alt where alt: "alt \<in> set OBFUSCATION" "match_seq alt s = Some r"
    unfolding OBFUSCATION_def by (auto split: option.splits)
  have "1 \<le> length (filter (\<lambda>x. case x of Star p \<Rightarrow> False | _ \<Rightarrow> True) alt)"
    using alt(1) unfolding OBFUSCATION_def by (auto simp: lit_def lit_i_def)
  then show ?thesis using match_seq_length[OF alt(2)] by simp
qed

section \<open>Facts about the network functions\<close>

lemma split_first_no_sep: "c \<notin> set s \<Longrightarrow> py_split_first c s = [s]"
  by (simp add: py_split_first_def)

lemma split_first_sep:
  "c \<notin> set l \<Longrightarrow> py_split_first c (l @ c # d) = [l, d]"
proof -
  assume a: "c \<notin> set l"
  have "takeWhile (\<lambda>x. x \<noteq> c) (l @ c # d) = l"
    using a by (induction l) auto
  moreover have "dropWhile (\<lambda>x. x \<noteq> c) (l @ c # d) = c # d"
    using a by (induction l) auto
  ultimately show ?thesis by (simp add: py_split_first_def)
qed

lemma split_on_no_sep: "c \<notin> set s \<Longrightarrow> py_split_on c s = [s]"
  by (induction s) auto

lemma split_on_two: "c \<in> set s \<Longrightarrow> \<exists>w v vs. py_split_on c s = w # v # vs"
proof (induction s)
  case Nil
  then show ?case by simp
next
  case (Cons x xs)
  show ?case
  proof (cases "x = c")
    case True
    then show ?thesis
      using py_split_on_nonempty[of c xs] by (cases "py_split_on c xs") auto
  next
    case False
    then have "c \<in> set xs" using Cons.prems by simp
    then obtain w v vs where "py_split_on c xs = w # v # vs" using Cons.IH by blast
    then show ?thesis using False by simp
  qed
qed

lemma last_split_Cons:
  "c \<in> set xs \<Longrightarrow> last (py_split_on c (x # xs)) = last (py_split_on c xs)"
proof -
  assume "c \<in> set xs"
  then obtain w v vs where s: "py_split_on c xs = w # v # vs"
    using split_on_two by blast
  show ?thesis by (cases "x = c") (simp_all add: s)
qed

lemma last_split_after:
  "c \<notin> set d \<Longrightarrow> last (py_split_on c (l @ c # d)) = d"
proof (induction l)
  case Nil
  then show ?case by (simp add: split_on_no_sep)
next
  case (Cons x xs)
  then show ?case using last_split_Cons[of c "xs @ c # d" x] by simp
qed

lemma domain_part_after_last:
  "CHR ''@'' \<notin> set d \<Longrightarrow> domain_part (l @ ''@'' @ d) = d"
  using last_split_after[of "CHR ''@''" d l] by (simp add: domain_part_def)

lemma domain_part_no_at: "CHR ''@'' \<notin> set em \<Longrightarrow> domain_part em = em"
  by (simp add: domain_part_def split_on_no_sep)

lemma fetch_urljoin_raises:
  "extract_emails_and_links_from_url demo_env ''https://broken.test/'' 1000000
     = (({}, {}, ''error:ValueError''),
        [HttpHead ''https://broken.test/'', HttpGet ''https://broken.test/''])"
proof -
  have h: "http_head demo_env ''https://broken.test/'' = Returns None"
    by (simp add: demo_env_def demo_head_def)
  have s: "size_of_head None = Returns 0"
    by (simp add: size_of_head_def py_int_def int_strip_def is_int_space_def
        py_nat_literal_def is_ascii_digit_def digit_val_def int_max_str_digits_def)
  have g: "http_get demo_env ''https://broken.test/''
      = Returns \<lparr>status_code = 200, final_url = ''https://broken.test/'',
                    parsed = Returns \<lparr>visible_text = ''mail bob@broken.test'', meta_contents = [],
                                       anchor_hrefs = [''/about'', ''http://[bad'']\<rparr>\<rparr>"
    by (simp add: demo_env_def demo_get_def)
  have l: "page_links demo_env ''https://broken.test/''
             \<lparr>visible_text = ''mail bob@broken.test'', meta_contents = [],
              anchor_hrefs = [''/about'', ''http://[bad'']\<rparr> = Raises ''ValueError''"
    by (simp add: page_links_def demo_env_def demo_urljoin_def)
  show ?thesis
    by (simp add: extract_emails_and_links_from_url_def h s g l)
qed

lemma py_int_separator: "py_int [CHR 0x1C, CHR ''5''] = None \<and> py_int [CHR 0x0C, CHR ''5''] = Some 5"
  by (simp add: py_int_def int_strip_def is_int_space_def py_nat_literal_def
      is_ascii_digit_def digit_val_def int_max_str_digits_def)

lemma py_int_long:
  "is_ascii_digit c \<Longrightarrow> py_int (replicate 4301 c) = None"
proof -
  assume d: "is_ascii_digit c"
  then have n: "\<not> is_int_space c" "c \<noteq> CHR ''-''" "c \<noteq> CHR ''+''"
    by (auto simp: is_ascii_digit_def is_int_space_def Let_def)
  have r: "replicate 4301 c = c # replicate 4300 c"
    by (simp add: replicate_Suc[symmetric] del: replicate_Suc)
  have "int_strip (replicate 4301 c) = replicate 4301 c"
    using n(1) by (simp add: int_strip_def r dropWhile_eq_self_iff)
  moreover have "length (filter is_ascii_digit (replicate 4301 c)) = 4301"
    using d by simp
  ultimately show ?thesis
    using d n by (simp add: py_int_def py_nat_literal_def int_max_str_digits_def r)
qed

section \<open>Facts about one run\<close>

lemma email_rows_fields:
  "r \<in> set (email_rows e ag u fn url src ems) \<Longrightarrow>
   username r = u \<and> full_name r = fn \<and> external_url r = url \<and> source r = src \<and>
   email r \<in> set ems"
  by (auto simp: email_rows_def make_row_def Let_def split: prod.splits)

lemma email_rows_nonempty: "ems \<noteq> [] \<Longrightarrow> email_rows e ag u fn url src ems \<noteq> []"
  by (simp add: email_rows_def)

lemma finite_extract_emails: "finite (extract_emails_from_text t)"
  by (simp add: extract_emails_from_text_def)

lemma finite_page_emails: "finite (page_emails pg)"
  unfolding page_emails_def
  by (rule finite_UnI) (rule finite_set, rule finite_extract_emails)

lemma finite_fetch_emails:
  "finite (fst (fst (extract_emails_and_links_from_url e url mb)))"
  by (simp add: extract_emails_and_links_from_url_def finite_page_emails
      split: outcome.splits)

lemma finite_guess_emails: "finite (guess_emails fn dm)"
  by (simp add: guess_emails_def)

lemma candidate_domains_loop_origin:
  "(d, link) \<in> set (candidate_domains_loop e cd links) \<Longrightarrow>
   (d, link) \<in> set cd \<or>
   (domain_from_url e link = Some d \<and> \<not> is_aggregator_or_social d \<and> link \<in> set links)"
proof (induction e cd links rule: candidate_domains_loop.induct)
  case (1 e cd)
  then show ?case by simp
next
  case (2 e cd l links)
  show ?case
  proof (cases "domain_from_url e l")
    case None
    then show ?thesis using 2 by auto
  next
    case (Some d')
    show ?thesis
    proof (cases "is_aggregator_or_social d'")
      case True
      then show ?thesis using 2 Some by auto
    next
      case False
      show ?thesis
      proof (cases "map_of cd d' = None")
        case True
        have "(d, link) \<in> set (AList.update d' l cd) \<Longrightarrow> (d, link) \<in> set cd \<or> (d, link) = (d', l)"
          by (induction cd) (auto split: if_splits)
        then show ?thesis using 2(3)[OF Some False True] 2(5) Some False True by auto
      next
        case F: False
        then show ?thesis using 2(4)[OF Some False F] 2(5) Some False by auto
      qed
    qed
  qed
qed

lemma deep_crawl_rows:
  "order_ok e \<Longrightarrow> r \<in> set (fst (deep_crawl e ag u fn k cands)) \<Longrightarrow>
   username r = u \<and> full_name r = fn \<and> source r = ''site_deep'' \<and>
   (\<exists>dm. (dm, external_url r) \<in> set cands) \<and>
   email r \<in> fst (fst (extract_emails_and_links_from_url e (external_url r) (max_site_bytes ag)))"
proof (induction e ag u fn k cands rule: deep_crawl.induct)
  case (1 e ag u fn k)
  then show ?case by simp
next
  case (2 e ag u fn k dm link rest)
  note ok = \<open>order_ok e\<close>
  show ?case
  proof (cases "k \<ge> max_deep_links ag")
    case True
    then show ?thesis using 2(3) by simp
  next
    case False
    obtain ems lks nt where
      f: "fst (extract_emails_and_links_from_url e link (max_site_bytes ag)) = (ems, lks, nt)"
      by (cases "fst (extract_emails_and_links_from_url e link (max_site_bytes ag))") auto
    obtain rows' pers where d: "deep_crawl e ag u fn (k + 1) rest = (rows', pers)"
      by (cases "deep_crawl e ag u fn (k + 1) rest") auto
    have fin: "finite ems"
      using finite_fetch_emails[of e link "max_site_bytes ag"] f by simp
    then have so: "set (set_order e ems) = ems"
      using ok by (simp add: order_ok_def)
    from 2(3) False f d
    have "r \<in> set (email_rows e ag u fn link ''site_deep'' (set_order e ems)) \<or> r \<in> set rows'"
      by simp
    then show ?thesis
    proof
      assume "r \<in> set (email_rows e ag u fn link ''site_deep'' (set_order e ems))"
      then show ?thesis
        using email_rows_fields[of r e ag u fn link "''site_deep''" "set_order e ems"] so f
        by auto
    next
      assume "r \<in> set rows'"
      then show ?thesis
        using 2(1)[OF False f[symmetric] refl refl refl ok] d by auto
    qed
  qed
qed

lemma deep_crawl_personal:
  "order_ok e \<Longrightarrow> dm \<in> snd (deep_crawl e ag u fn k cands) \<Longrightarrow>
   \<exists>link r'. (dm, link) \<in> set cands \<and> r' \<in> set (fst (deep_crawl e ag u fn k cands)) \<and>
     external_url r' = link"
proof (induction e ag u fn k cands rule: deep_crawl.induct)
  case (1 e ag u fn k)
  then show ?case by simp
next
  case (2 e ag u fn k d0 link rest)
  note ok = \<open>order_ok e\<close>
  show ?case
  proof (cases "k \<ge> max_deep_links ag")
    case True
    then show ?thesis using 2(3) by simp
  next
    case False
    obtain ems lks nt where
      f: "fst (extract_emails_and_links_from_url e link (max_site_bytes ag)) = (ems, lks, nt)"
      by (cases "fst (extract_emails_and_links_from_url e link (max_site_bytes ag))") auto
    obtain rows' pers where d: "deep_crawl e ag u fn (k + 1) rest = (rows', pers)"
      by (cases "deep_crawl e ag u fn (k + 1) rest") auto
    have fin: "finite ems"
      using finite_fetch_emails[of e link "max_site_bytes ag"] f by simp
    then have so: "set (set_order e ems) = ems"
      using ok by (simp add: order_ok_def)
    have rows: "fst (deep_crawl e ag u fn k ((d0, link) # rest))
        = email_rows e ag u fn link ''site_deep'' (set_order e ems) @ rows'"
      using False f d by simp
    from 2(3) False f d have "(dm = d0 \<and> ems \<noteq> {}) \<or> dm \<in> pers"
      by (auto split: if_splits)
    then show ?thesis
    proof
      assume a: "dm = d0 \<and> ems \<noteq> {}"
      then have "set_order e ems \<noteq> []" using so by auto
      then obtain r' where r': "r' \<in> set (email_rows e ag u fn link ''site_deep'' (set_order e ems))"
        using email_rows_nonempty[of "set_order e ems" e ag u fn link "''site_deep''"]
        by (meson last_in_set)
      then have "external_url r' = link"
        using email_rows_fields by blast
      then show ?thesis using a r' rows by auto
    next
      assume "dm \<in> pers"
      then obtain l r' where "(dm, l) \<in> set rest" "r' \<in> set rows'" "external_url r' = l"
        using 2(1)[OF False f[symmetric] refl refl refl ok] d by auto
      then show ?thesis using rows by auto
    qed
  qed
qed

lemma finite_deep_personal: "finite (snd (deep_crawl e ag u fn k cands))"
proof (induction e ag u fn k cands rule: deep_crawl.induct)
  case (1 e ag u fn k)
  then show ?case by simp
next
  case (2 e ag u fn k d0 link rest)
  show ?case
  proof (cases "k \<ge> max_deep_links ag")
    case True
    then show ?thesis by simp
  next
    case False
    obtain ems lks nt where
      f: "fst (extract_emails_and_links_from_url e link (max_site_bytes ag)) = (ems, lks, nt)"
      by (cases "fst (extract_emails_and_links_from_url e link (max_site_bytes ag))") auto
    obtain rows' pers where d: "deep_crawl e ag u fn (k + 1) rest = (rows', pers)"
      by (cases "deep_crawl e ag u fn (k + 1) rest") auto
    have "finite pers"
      using 2[OF False f[symmetric] refl refl refl] d by simp
    then show ?thesis using False f d by simp
  qed
qed

lemma guess_rows_fields:
  "r \<in> set (guess_rows e ag u fn doms) \<Longrightarrow>
   \<exists>dm \<in> set doms. fst (mx_exists e dm) \<and> external_url r = ''https://'' @ dm \<and>
      email r \<in> guess_emails fn dm \<and> source r = ''guess_personal'' \<and>
      username r = u \<and> full_name r = fn"
proof -
  assume "r \<in> set (guess_rows e ag u fn doms)"
  then obtain dm where dm: "dm \<in> set doms" "fst (mx_exists e dm)"
    "r \<in> set (email_rows e ag u fn (''https://'' @ dm) ''guess_personal''
               (sorted_list_of_set (guess_emails fn dm)))"
    by (auto simp: guess_rows_def split: if_splits)
  then show ?thesis
    using email_rows_fields[OF dm(3)] finite_guess_emails[of fn dm] by auto
qed


lemma process_user_guess:
  assumes ok: "order_ok e"
    and r: "r \<in> set (process_user e ag u)"
    and g: "source r = ''guess_personal''"
  shows "\<exists>dm link r' pre mid post.
        external_url r = ''https://'' @ dm \<and> email r \<in> guess_emails (full_name r) dm \<and>
        fst (mx_exists e dm) \<and>
        domain_from_url e link = Some dm \<and> \<not> is_aggregator_or_social dm \<and>
        source r' = ''site_deep'' \<and> username r' = username r \<and> external_url r' = link \<and>
        email r' \<in> fst (fst (extract_emails_and_links_from_url e link (max_site_bytes ag))) \<and>
        process_user e ag u = pre @ r' # mid @ r # post"
proof (cases "profile_of e u")
  case (Raises x)
  then show ?thesis using r g by (simp add: process_user_def make_row_def)
next
  case (Returns p)
  define fn where "fn = or_empty (pf_full_name p)"
  define ext where "ext = or_empty (pf_external_url p)"
  define bio_rows where "bio_rows = email_rows e ag u fn ext ''bio''
      (set_order e (extract_emails_from_text (or_empty (pf_biography p))))"
  have nb: "r \<notin> set bio_rows"
    using g email_rows_fields[of r e ag u fn ext "''bio''"] by (auto simp: bio_rows_def)
  show ?thesis
  proof (cases "ext = []")
    case True
    then have "process_user e ag u = bio_rows"
      using Returns by (simp add: process_user_def Let_def bio_rows_def fn_def ext_def)
    then show ?thesis using r nb by simp
  next
    case False
    obtain sems lks nt where
      f: "fst (extract_emails_and_links_from_url e ext (max_site_bytes ag)) = (sems, lks, nt)"
      by (cases "fst (extract_emails_and_links_from_url e ext (max_site_bytes ag))") auto
    define site_rows where "site_rows = email_rows e ag u fn ext ''site'' (set_order e sems)"
    define cands where "cands = candidate_domains_loop e [] (set_order e lks)"
    obtain deep pers where d: "deep_crawl e ag u fn 0 cands = (deep, pers)"
      by (cases "deep_crawl e ag u fn 0 cands") auto
    define grows where "grows = guess_rows e ag u fn (set_order e pers)"
    have pu: "process_user e ag u = bio_rows @ site_rows @ deep @ grows"
      using Returns False f d
      by (simp add: process_user_def Let_def bio_rows_def fn_def ext_def site_rows_def
          cands_def grows_def)
    have ns: "r \<notin> set site_rows"
      using g email_rows_fields[of r e ag u fn ext "''site''"] by (auto simp: site_rows_def)
    have nd: "r \<notin> set deep"
      using g deep_crawl_rows[OF ok, of r ag u fn 0 cands] d by auto
    have rg: "r \<in> set grows" using r pu nb ns nd by auto
    then obtain dm where dm: "dm \<in> set (set_order e pers)" "fst (mx_exists e dm)"
      "external_url r = ''https://'' @ dm" "email r \<in> guess_emails fn dm"
      "username r = u" "full_name r = fn"
      using guess_rows_fields[of r e ag u fn "set_order e pers"] by (auto simp: grows_def)
    have "finite pers" using finite_deep_personal[of e ag u fn 0 cands] d by simp
    then have "dm \<in> pers" using dm(1) ok by (simp add: order_ok_def)
    then obtain link r' where l: "(dm, link) \<in> set cands" "r' \<in> set deep" "external_url r' = link"
      using deep_crawl_personal[OF ok, of dm ag u fn 0 cands] d by auto
    have r'f: "username r' = u" "source r' = ''site_deep''"
      "email r' \<in> fst (fst (extract_emails_and_links_from_url e link (max_site_bytes ag)))"
      using deep_crawl_rows[OF ok, of r' ag u fn 0 cands] d l(2,3) by auto
    have dom: "domain_from_url e link = Some dm" "\<not> is_aggregator_or_social dm"
      using candidate_domains_loop_origin[of dm link e "[]" "set_order e lks"] l(1)
      by (auto simp: cands_def)
    obtain d1 d2 where d12: "deep = d1 @ r' # d2" using l(2) by (meson split_list)
    obtain g1 g2 where g12: "grows = g1 @ r # g2" using rg by (meson split_list)
    have "process_user e ag u = (bio_rows @ site_rows @ d1) @ r' # (d2 @ g1) @ r # g2"
      using pu d12 g12 by simp
    then show ?thesis
      using dm dom r'f l(3) by blast
  qed
qed

lemma order_ok_demo: "order_ok demo_env"
  by (simp add: order_ok_def demo_env_def)

text \<open>
  A page on which \<open>urljoin\<close> raises gives no rows, although its text holds an address.
\<close>

lemma run_urljoin_raises: "run demo_env demo_args [''bob''] = []"
proof -
  have p: "profile_of demo_env ''bob''
      = Returns \<lparr>pf_full_name = Some ''Bob Ray'', pf_biography = None,
                  pf_external_url = Some ''https://broken.test/''\<rparr>"
    by (simp add: demo_env_def demo_profile_def)
  have b: "extract_emails_from_text [] = {}"
    by (simp add: extract_emails_from_text_def clean_obfuscated_email_def)
  have o: "set_order demo_env {} = []"
    by (simp add: demo_env_def)
  show ?thesis
    by (simp add: run_def process_user_def p or_empty_def b o email_rows_def
        demo_args_def fetch_urljoin_raises guess_rows_def)
qed

section \<open>Claims about the reducer\<close>

text \<open>
  Claim C1. For every list of rows and every handle \<open>u\<close>, the row that \<open>select_best\<close>
  returns for \<open>u\<close> is the running best of the rows of \<open>u\<close> taken in input order: the first
  one, replaced by a later one only when that one's source has a strictly lower rank. The
  ranks are bio 1, site 2, site_deep 3, guess_personal 4, and 99 for any other source.
  In particular three rows of one handle with the sources site, bio, site_deep reduce to the
  bio row, and of two bio rows of one handle the first is kept.
\<close>

theorem select_best_replacement_rule:
  "find (\<lambda>r. username r = u) (select_best rows) = spec_best_for u rows
   \<and> priority_value ''bio'' = 1 \<and> priority_value ''site'' = 2
   \<and> priority_value ''site_deep'' = 3 \<and> priority_value ''guess_personal'' = 4
   \<and> (s \<notin> {''bio'', ''site'', ''site_deep'', ''guess_personal''} \<longrightarrow> priority_value s = 99)
   \<and> (username a = u \<and> username b = u \<and> username c = u \<and>
        source a = ''site'' \<and> source b = ''bio'' \<and> source c = ''site_deep''
        \<longrightarrow> select_best [a, b, c] = [b])
   \<and> (username a = u \<and> username b = u \<and> source a = ''bio'' \<and> source b = ''bio''
        \<longrightarrow> select_best [a, b] = [a])"
proof -
  have tbl: "priority_value ''bio'' = 1" "priority_value ''site'' = 2"
    "priority_value ''site_deep'' = 3" "priority_value ''guess_personal'' = 4"
    by (simp_all add: priority_value_def PRIORITY_def)
  have other: "s \<notin> {''bio'', ''site'', ''site_deep'', ''guess_personal''} \<longrightarrow> priority_value s = 99"
    by (simp add: priority_value_def PRIORITY_def)
  have three: "username a = u \<and> username b = u \<and> username c = u \<and>
        source a = ''site'' \<and> source b = ''bio'' \<and> source c = ''site_deep''
        \<longrightarrow> select_best [a, b, c] = [b]"
    by (simp add: select_best_def tbl)
  have tie: "username a = u \<and> username b = u \<and> source a = ''bio'' \<and> source b = ''bio''
        \<longrightarrow> select_best [a, b] = [a]"
    by (simp add: select_best_def tbl)
  show ?thesis
    using select_best_find[of u rows] tbl other three tie by blast
qed

theorem select_best_replacement_rule_witness:
  "find (\<lambda>r. username r = ''x'')
     (select_best
        [make_row ''x'' ''X'' '''' ''s@x.org'' ''site'' ''True'' '''' '''',
         make_row ''x'' ''X'' '''' ''b@x.org'' ''bio'' ''True'' '''' '''',
         make_row ''x'' ''X'' '''' ''d@x.org'' ''site_deep'' ''True'' '''' ''''])
     = Some (make_row ''x'' ''X'' '''' ''b@x.org'' ''bio'' ''True'' '''' '''')
   \<and> priority_value ''error'' = 99
   \<and> select_best
        [make_row ''x'' ''X'' '''' ''s@x.org'' ''site'' ''True'' '''' '''',
         make_row ''x'' ''X'' '''' ''b@x.org'' ''bio'' ''True'' '''' '''',
         make_row ''x'' ''X'' '''' ''d@x.org'' ''site_deep'' ''True'' '''' '''']
     = [make_row ''x'' ''X'' '''' ''b@x.org'' ''bio'' ''True'' '''' '''']
   \<and> select_best
        [make_row ''x'' ''X'' '''' ''b@x.org'' ''bio'' ''True'' '''' '''',
         make_row ''x'' ''X'' '''' ''c@x.org'' ''bio'' ''True'' '''' '''']
     = [make_row ''x'' ''X'' '''' ''b@x.org'' ''bio'' ''True'' '''' '''']"
  using select_best_replacement_rule
    [of "''x''"
        "[make_row ''x'' ''X'' '''' ''s@x.org'' ''site'' ''True'' '''' '''',
          make_row ''x'' ''X'' '''' ''b@x.org'' ''bio'' ''True'' '''' '''',
          make_row ''x'' ''X'' '''' ''d@x.org'' ''site_deep'' ''True'' '''' '''']"
        "''error''"
        "make_row ''x'' ''X'' '''' ''s@x.org'' ''site'' ''True'' '''' ''''"
        "make_row ''x'' ''X'' '''' ''b@x.org'' ''bio'' ''True'' '''' ''''"
        "make_row ''x'' ''X'' '''' ''d@x.org'' ''site_deep'' ''True'' '''' ''''"]
    select_best_replacement_rule
    [of "''x''" "[]" "''error''"
        "make_row ''x'' ''X'' '''' ''b@x.org'' ''bio'' ''True'' '''' ''''"
        "make_row ''x'' ''X'' '''' ''c@x.org'' ''bio'' ''True'' '''' ''''"]
  by (simp add: make_row_def spec_best_for_def spec_rank_def)

text \<open>
  Claim C3. The reduced output has no two rows with the same handle, every row of it is an
  input row that passed the filter (no error row, a valid address), and its handles are
  exactly the handles of the input rows that passed the filter: none is invented and none
  is dropped.
\<close>

theorem reduce_rows_one_per_handle:
  "distinct (map username (reduce_rows rows))
   \<and> set (reduce_rows rows) \<subseteq> {r \<in> set rows. \<not> is_error_row r \<and> is_valid_email (email r)}
   \<and> username ` set (reduce_rows rows)
       = username ` {r \<in> set rows. \<not> is_error_row r \<and> is_valid_email (email r)}"
proof -
  have c: "set (clean_rows rows) = {r \<in> set rows. \<not> is_error_row r \<and> is_valid_email (email r)}"
    by (simp add: clean_rows_filter)
  show ?thesis
    unfolding reduce_rows_def
    using select_best_distinct[of "clean_rows rows"] select_best_subset[of "clean_rows rows"]
          select_best_usernames[of "clean_rows rows"] c
    by simp
qed

theorem reduce_rows_one_per_handle_witness:
  "reduce_rows
     [make_row ''x'' ''X'' '''' ''s@x.org'' ''site'' ''True'' '''' '''',
      make_row ''y'' '''' '''' '''' ''error'' '''' '''' ''profile_error:KeyError'',
      make_row ''z'' ''Z'' '''' ''z@z.org'' ''site_deep'' ''True'' '''' '''',
      make_row ''x'' ''X'' '''' ''b@x.org'' ''bio'' ''True'' '''' '''']
     = [make_row ''x'' ''X'' '''' ''b@x.org'' ''bio'' ''True'' '''' '''',
        make_row ''z'' ''Z'' '''' ''z@z.org'' ''site_deep'' ''True'' '''' '''']
   \<and> distinct (map username (reduce_rows
     [make_row ''x'' ''X'' '''' ''s@x.org'' ''site'' ''True'' '''' '''',
      make_row ''y'' '''' '''' '''' ''error'' '''' '''' ''profile_error:KeyError'',
      make_row ''z'' ''Z'' '''' ''z@z.org'' ''site_deep'' ''True'' '''' '''',
      make_row ''x'' ''X'' '''' ''b@x.org'' ''bio'' ''True'' '''' '''']))"
proof -
  have red: "reduce_rows
     [make_row ''x'' ''X'' '''' ''s@x.org'' ''site'' ''True'' '''' '''',
      make_row ''y'' '''' '''' '''' ''error'' '''' '''' ''profile_error:KeyError'',
      make_row ''z'' ''Z'' '''' ''z@z.org'' ''site_deep'' ''True'' '''' '''',
      make_row ''x'' ''X'' '''' ''b@x.org'' ''bio'' ''True'' '''' '''']
     = [make_row ''x'' ''X'' '''' ''b@x.org'' ''bio'' ''True'' '''' '''',
        make_row ''z'' ''Z'' '''' ''z@z.org'' ''site_deep'' ''True'' '''' '''']"
    by code_simp
  show ?thesis
    using red reduce_rows_one_per_handle
     [of "[make_row ''x'' ''X'' '''' ''s@x.org'' ''site'' ''True'' '''' '''',
      make_row ''y'' '''' '''' '''' ''error'' '''' '''' ''profile_error:KeyError'',
      make_row ''z'' ''Z'' '''' ''z@z.org'' ''site_deep'' ''True'' '''' '''',
      make_row ''x'' ''X'' '''' ''b@x.org'' ''bio'' ''True'' '''' '''']"]
    by simp
qed

text \<open>
  Claim C4, as amended. The filter stage keeps exactly the rows whose source is not
  \<open>error\<close>, whose note does not contain \<open>profile_error\<close>, and whose address contains an
  \<open>@\<close> and does not contain \<open>example.com\<close> anywhere in its lower-cased form; so no row
  of the reduced output is an error row, has an empty address, an address without \<open>@\<close> or
  an address on the domain \<open>example.com\<close>, whatever its source.
\<close>

theorem filter_stage_exact:
  "clean_rows rows =
     filter (\<lambda>r. source r \<noteq> ''error'' \<and> \<not> py_in ''profile_error'' (smtp_note r) \<and>
                 CHR ''@'' \<in> set (email r) \<and>
                 \<not> py_in ''example.com'' (py_lower (email r))) rows
   \<and> (r \<in> set (reduce_rows rows) \<longrightarrow>
        r \<in> set rows \<and> source r \<noteq> ''error'' \<and> \<not> py_in ''profile_error'' (smtp_note r) \<and>
        email r \<noteq> [] \<and> CHR ''@'' \<in> set (email r) \<and>
        py_lower (domain_part (email r)) \<noteq> ''example.com'' \<and>
        \<not> py_in ''example.com'' (py_lower (email r)))"
proof -
  have f: "clean_rows rows =
     filter (\<lambda>r. source r \<noteq> ''error'' \<and> \<not> py_in ''profile_error'' (smtp_note r) \<and>
                 CHR ''@'' \<in> set (email r) \<and>
                 \<not> py_in ''example.com'' (py_lower (email r))) rows"
    unfolding clean_rows_filter
    by (rule filter_cong) (auto simp: is_error_row_def is_valid_email_iff)
  have "r \<in> set rows \<and> source r \<noteq> ''error'' \<and> \<not> py_in ''profile_error'' (smtp_note r) \<and>
        email r \<noteq> [] \<and> CHR ''@'' \<in> set (email r) \<and>
        py_lower (domain_part (email r)) \<noteq> ''example.com'' \<and>
        \<not> py_in ''example.com'' (py_lower (email r))"
    if "r \<in> set (reduce_rows rows)"
  proof -
    have "r \<in> set (clean_rows rows)"
      using that select_best_subset[of "clean_rows rows"] by (auto simp: reduce_rows_def)
    then have r: "r \<in> set rows" "source r \<noteq> ''error''" "\<not> py_in ''profile_error'' (smtp_note r)"
      "CHR ''@'' \<in> set (email r)" "\<not> py_in ''example.com'' (py_lower (email r))"
      unfolding f by simp_all
    have "email r \<noteq> []" using r(4) by auto
    moreover have "py_lower (domain_part (email r)) \<noteq> ''example.com''"
      using r(5) domain_part_sublist[of "email r" "''example.com''"] by blast
    ultimately show ?thesis using r by blast
  qed
  then show ?thesis using f by blast
qed

theorem filter_stage_exact_witness:
  "clean_rows
     [make_row ''x'' ''X'' '''' ''b@x.org'' ''bio'' ''True'' '''' '''',
      make_row ''y'' '''' '''' '''' ''error'' '''' '''' ''profile_error:KeyError'']
     = [make_row ''x'' ''X'' '''' ''b@x.org'' ''bio'' ''True'' '''' '''']
   \<and> make_row ''x'' ''X'' '''' ''b@x.org'' ''bio'' ''True'' '''' ''''
       \<in> set (reduce_rows
           [make_row ''x'' ''X'' '''' ''b@x.org'' ''bio'' ''True'' '''' '''',
            make_row ''y'' '''' '''' '''' ''error'' '''' '''' ''profile_error:KeyError''])
   \<and> py_lower (domain_part ''b@x.org'') \<noteq> ''example.com''"
proof -
  have red: "reduce_rows
           [make_row ''x'' ''X'' '''' ''b@x.org'' ''bio'' ''True'' '''' '''',
            make_row ''y'' '''' '''' '''' ''error'' '''' '''' ''profile_error:KeyError'']
      = [make_row ''x'' ''X'' '''' ''b@x.org'' ''bio'' ''True'' '''' '''']"
    by (simp add: reduce_rows_def select_best_def make_row_def is_error_row_def
        is_valid_email_def py_in_def sublist_code prefix_code py_lower_def py_lower_char_def
        py_strip_def is_space_def)
  show ?thesis
    using filter_stage_exact
      [of "[make_row ''x'' ''X'' '''' ''b@x.org'' ''bio'' ''True'' '''' '''',
            make_row ''y'' '''' '''' '''' ''error'' '''' '''' ''profile_error:KeyError'']"
          "make_row ''x'' ''X'' '''' ''b@x.org'' ''bio'' ''True'' '''' ''''"]
      red
    by (simp add: make_row_def py_in_def sublist_code prefix_code py_lower_def py_lower_char_def)
qed

text \<open>
  The claim as first stated lets every row pass whose address is non-empty, has an \<open>@\<close>
  and is not on the domain \<open>example.com\<close>. The row below is such a row, and the filter
  drops it.
\<close>

theorem placeholder_domain_only_counterexample:
  "email (make_row ''x'' ''X'' '''' ''user@example.com.au'' ''bio'' ''True'' '''' '''') \<noteq> []
   \<and> CHR ''@'' \<in> set (email (make_row ''x'' ''X'' '''' ''user@example.com.au'' ''bio'' ''True'' '''' ''''))
   \<and> domain_part (email (make_row ''x'' ''X'' '''' ''user@example.com.au'' ''bio'' ''True'' '''' ''''))
       = ''example.com.au''
   \<and> py_lower (domain_part (email (make_row ''x'' ''X'' '''' ''user@example.com.au'' ''bio'' ''True'' '''' '''')))
       \<noteq> ''example.com''
   \<and> \<not> is_error_row (make_row ''x'' ''X'' '''' ''user@example.com.au'' ''bio'' ''True'' '''' '''')
   \<and> clean_rows [make_row ''x'' ''X'' '''' ''user@example.com.au'' ''bio'' ''True'' '''' ''''] = []"
proof -
  have d: "domain_part ''user@example.com.au'' = ''example.com.au''"
    by (simp add: domain_part_def)
  have l: "py_lower ''example.com.au'' \<noteq> ''example.com''"
    by (simp add: py_lower_def)
  have e: "\<not> is_error_row (make_row ''x'' ''X'' '''' ''user@example.com.au'' ''bio'' ''True'' '''' '''')"
    by (simp add: make_row_def is_error_row_def py_in_def sublist_code prefix_code)
  have c: "clean_rows [make_row ''x'' ''X'' '''' ''user@example.com.au'' ''bio'' ''True'' '''' ''''] = []"
    using e by (simp add: make_row_def is_valid_email_def lower_user_au in_user_au)
  show ?thesis
    using d l e c by (simp add: make_row_def)
qed

text \<open>
  Claim C10. An address whose lower-cased form contains \<open>example.com\<close> anywhere is not
  valid, and no row with such an address is in the reduced output; this holds of
  \<open>user@example.com.au\<close> and \<open>example.com@legit.org\<close>, whose domains are not
  \<open>example.com\<close>.
\<close>

theorem example_com_substring_rejected:
  "(py_in ''example.com'' (py_lower em) \<longrightarrow>
      \<not> is_valid_email em \<and> (email r = em \<longrightarrow> r \<notin> set (reduce_rows rows)))
   \<and> \<not> is_valid_email ''user@example.com.au''
   \<and> \<not> is_valid_email ''example.com@legit.org''
   \<and> \<not> is_valid_email ''Bob@Mail.EXAMPLE.COM''"
proof -
  have gen: "\<not> is_valid_email em \<and> (email r = em \<longrightarrow> r \<notin> set (reduce_rows rows))"
    if h: "py_in ''example.com'' (py_lower em)"
  proof -
    have nv: "\<not> is_valid_email em" using h by (simp add: is_valid_email_iff)
    have "r \<notin> set (clean_rows rows)" if "email r = em"
      using nv that by (simp add: clean_rows_filter)
    then show ?thesis
      using nv select_best_subset[of "clean_rows rows"] by (auto simp: reduce_rows_def)
  qed
  have c1: "\<not> is_valid_email ''user@example.com.au''"
    by (simp add: is_valid_email_def lower_user_au in_user_au)
  have c2: "\<not> is_valid_email ''example.com@legit.org''"
    by (simp add: is_valid_email_def py_in_def sublist_code prefix_code py_lower_def
        py_lower_char_def)
  have c3: "\<not> is_valid_email ''Bob@Mail.EXAMPLE.COM''"
    by code_simp
  show ?thesis using gen c1 c2 c3 by blast
qed

theorem example_com_substring_rejected_witness:
  "py_in ''example.com'' (py_lower ''example.com@legit.org'')
   \<and> \<not> is_valid_email ''example.com@legit.org''
   \<and> make_row ''x'' ''X'' '''' ''example.com@legit.org'' ''bio'' ''True'' '''' ''''
       \<notin> set (reduce_rows
           [make_row ''x'' ''X'' '''' ''example.com@legit.org'' ''bio'' ''True'' '''' '''',
            make_row ''x'' ''X'' '''' ''b@x.org'' ''site'' ''True'' '''' ''''])"
proof -
  have h: "py_in ''example.com'' (py_lower ''example.com@legit.org'')"
    by (simp add: py_in_def sublist_code prefix_code py_lower_def py_lower_char_def)
  show ?thesis
    using h example_com_substring_rejected
      [of "''example.com@legit.org''"
          "make_row ''x'' ''X'' '''' ''example.com@legit.org'' ''bio'' ''True'' '''' ''''"
          "[make_row ''x'' ''X'' '''' ''example.com@legit.org'' ''bio'' ''True'' '''' '''',
            make_row ''x'' ''X'' '''' ''b@x.org'' ''site'' ''True'' '''' '''']"]
    by (simp add: make_row_def)
qed

section \<open>Claims about the scraper\<close>

text \<open>
  Claim C6. \<open>extract_emails_from_text\<close> decodes the two obfuscated inputs:
  \<open>john [at] example [dot] com\<close> gives the one address \<open>john@example.com\<close>, and
  \<open>john at example dot org\<close> gives the one address \<open>john@example.org\<close>.
\<close>

theorem extract_emails_obfuscated_examples:
  "clean_obfuscated_email ''john [at] example [dot] com'' = ''john@example.com''
   \<and> extract_emails_from_text ''john [at] example [dot] com'' = {''john@example.com''}
   \<and> clean_obfuscated_email ''john at example dot org'' = ''john@example.org''
   \<and> extract_emails_from_text ''john at example dot org'' = {''john@example.org''}"
proof -
  have c1: "clean_obfuscated_email ''john [at] example [dot] com'' = ''john@example.com''"
    by code_simp
  have c2: "clean_obfuscated_email ''john at example dot org'' = ''john@example.org''"
    by code_simp
  have f1: "email_finditer ''john@example.com'' = [''john@example.com'']"
    by code_simp
  have f2: "email_finditer ''john@example.org'' = [''john@example.org'']"
    by code_simp
  show ?thesis
    unfolding extract_emails_from_text_def c1 c2 f1 f2 by simp
qed

text \<open>
  Claim C7. \<open>guess_emails\<close> on \<open>Jane Doe\<close> and \<open>foo.com\<close> contains jane.doe, janedoe,
  jdoe, janed and jane at foo.com. For every name whose cleaned form has at least two
  tokens, the last token is non-empty and the result contains first.last, firstlast, the
  first letter of first followed by last, first followed by the first letter of last,
  first_last, first-last and first alone, each followed by \<open>@\<close> and the domain.
\<close>

theorem guess_emails_patterns:
  "{''jane.doe@foo.com'', ''janedoe@foo.com'', ''jdoe@foo.com'', ''janed@foo.com'',
    ''jane@foo.com''} \<subseteq> guess_emails ''Jane Doe'' ''foo.com''
   \<and> (domain \<noteq> [] \<and> name_parts fullname = first # mid @ [lst] \<longrightarrow>
        lst \<noteq> [] \<and>
        {first @ ''.'' @ lst @ ''@'' @ domain, first @ lst @ ''@'' @ domain,
         [hd first] @ lst @ ''@'' @ domain, first @ [hd lst] @ ''@'' @ domain,
         first @ ''_'' @ lst @ ''@'' @ domain, first @ ''-'' @ lst @ ''@'' @ domain,
         first @ ''@'' @ domain} \<subseteq> guess_emails fullname domain)"
proof -
  have jane: "guess_emails ''Jane Doe'' ''foo.com'' =
      set [''jane.doe@foo.com'', ''janedoe@foo.com'', ''jdoe@foo.com'', ''janed@foo.com'',
           ''jane_doe@foo.com'', ''jane-doe@foo.com'', ''jane@foo.com'']"
    by code_simp
  have gen: "lst \<noteq> [] \<and>
        {first @ ''.'' @ lst @ ''@'' @ domain, first @ lst @ ''@'' @ domain,
         [hd first] @ lst @ ''@'' @ domain, first @ [hd lst] @ ''@'' @ domain,
         first @ ''_'' @ lst @ ''@'' @ domain, first @ ''-'' @ lst @ ''@'' @ domain,
         first @ ''@'' @ domain} \<subseteq> guess_emails fullname domain"
    if d: "domain \<noteq> []" and p: "name_parts fullname = first # mid @ [lst]"
  proof -
    have f: "first \<noteq> []" and l: "lst \<noteq> []"
      using name_parts_tokens[of first fullname] name_parts_tokens[of lst fullname] p
      by simp_all
    have n: "py_lower (py_strip (filter (\<lambda>c. is_ascii_alpha c \<or> is_space c) fullname)) \<noteq> []"
      using name_parts_Nil[of fullname] p by auto
    then have fn: "fullname \<noteq> []" by (auto simp: py_lower_def py_strip_def)
    have "guess_emails fullname domain =
        (\<lambda>b. b @ ''@'' @ domain) ` set (guess_bases (first # mid @ [lst]))"
      using d n fn p by (simp add: guess_emails_def)
    then show ?thesis
      using l by (simp add: guess_bases_two[OF f l])
  qed
  show ?thesis using jane gen by simp
qed

theorem guess_emails_patterns_witness:
  "name_parts ''Jane Doe'' = ''jane'' # [] @ [''doe'']
   \<and> {''jane.doe@foo.com'', ''janedoe@foo.com'', ''jdoe@foo.com'', ''janed@foo.com'',
       ''jane_doe@foo.com'', ''jane-doe@foo.com'', ''jane@foo.com''}
       \<subseteq> guess_emails ''Jane Doe'' ''foo.com''"
proof -
  have p: "name_parts ''Jane Doe'' = ''jane'' # [] @ [''doe'']"
    by code_simp
  show ?thesis
    using p guess_emails_patterns[where fullname = "''Jane Doe''" and domain = "''foo.com''"
        and first = "''jane''" and mid = "[]" and lst = "''doe''"]
    by simp
qed

text \<open>
  Claim C2, as amended. For every address, the verifier looks up the MX records of the
  text behind the last \<open>@\<close> (of the whole address when it has no \<open>@\<close>), and that lookup is
  its first call. When the lookup fails, or when the handshake is switched off, the result
  is the outcome of the lookup with an empty status and an empty note, and there is no
  other call. When the lookup succeeds and the handshake is switched on, the status, the
  note and the further calls are those of \<open>smtp_handshake_check\<close>. On an address without
  \<open>@\<close> the handshake returns \<open>unknown\<close> with the note \<open>bad_email\<close> and makes no DNS or SMTP
  call; on an address with one \<open>@\<close> it first looks up the MX records of the text behind it.
\<close>

theorem verifier_lookup_and_bad_email:
  "(dns_mx e (domain_part em) = Raises x \<longrightarrow>
      verify_email e sv em = ((False, '''', ''''), [DnsMx (domain_part em)]))
   \<and> (dns_mx e (domain_part em) = Returns hosts \<and> \<not> sv \<longrightarrow>
        verify_email e sv em = ((True, '''', ''''), [DnsMx (domain_part em)]))
   \<and> (dns_mx e (domain_part em) = Returns hosts \<and> sv \<longrightarrow>
        verify_email e sv em =
          ((True, fst (smtp_handshake_check e em)),
           DnsMx (domain_part em) # snd (smtp_handshake_check e em)))
   \<and> (CHR ''@'' \<notin> set d \<longrightarrow> domain_part (l @ ''@'' @ d) = d)
   \<and> (CHR ''@'' \<notin> set em \<longrightarrow>
        domain_part em = em \<and>
        smtp_handshake_check e em = ((''unknown'', ''bad_email''), []))
   \<and> (CHR ''@'' \<notin> set l \<and> CHR ''@'' \<notin> set d \<longrightarrow>
        (\<exists>res evs. smtp_handshake_check e (l @ ''@'' @ d) = (res, DnsMx d # evs)))"
proof -
  have raises: "verify_email e sv em = ((False, '''', ''''), [DnsMx (domain_part em)])"
    if "dns_mx e (domain_part em) = Raises x"
    using that by (simp add: verify_email_def mx_exists_def)
  have off: "verify_email e sv em = ((True, '''', ''''), [DnsMx (domain_part em)])"
    if "dns_mx e (domain_part em) = Returns hosts \<and> \<not> sv"
    using that by (simp add: verify_email_def mx_exists_def)
  have on: "verify_email e sv em =
          ((True, fst (smtp_handshake_check e em)),
           DnsMx (domain_part em) # snd (smtp_handshake_check e em))"
    if "dns_mx e (domain_part em) = Returns hosts \<and> sv"
    using that by (simp add: verify_email_def mx_exists_def split: prod.splits)
  have lst: "domain_part (l @ ''@'' @ d) = d" if "CHR ''@'' \<notin> set d"
    using that by (rule domain_part_after_last)
  have bad: "domain_part em = em \<and>
        smtp_handshake_check e em = ((''unknown'', ''bad_email''), [])"
    if "CHR ''@'' \<notin> set em"
    using that by (simp add: domain_part_no_at smtp_handshake_check_def split_first_no_sep)
  have one: "\<exists>res evs. smtp_handshake_check e (l @ ''@'' @ d) = (res, DnsMx d # evs)"
    if "CHR ''@'' \<notin> set l \<and> CHR ''@'' \<notin> set d"
  proof -
    have s: "py_split_first (CHR ''@'') (l @ ''@'' @ d) = [l, d]"
      using split_first_sep[of "CHR ''@''" l d] that by simp
    show ?thesis
      unfolding smtp_handshake_check_def s
      by (cases "dns_mx e d") (auto split: prod.splits)
  qed
  show ?thesis using raises off on lst bad one by blast
qed

theorem verifier_lookup_and_bad_email_witness:
  "verify_email demo_env True ''nodomain'' = ((False, '''', ''''), [DnsMx ''nodomain''])
   \<and> verify_email demo_env False ''bob@alice.dev'' = ((True, '''', ''''), [DnsMx ''alice.dev''])
   \<and> verify_email demo_env True ''bob@alice.dev''
       = ((True, ''accepted'', ''mx.alice.dev''),
          [DnsMx ''alice.dev'', DnsMx ''alice.dev'',
           SmtpSession ''mx.alice.dev'' ''bob@alice.dev''])
   \<and> domain_part ''a@b@alice.dev'' = ''alice.dev''
   \<and> smtp_handshake_check demo_env ''nodomain'' = ((''unknown'', ''bad_email''), [])
   \<and> (\<exists>res evs. smtp_handshake_check demo_env ''bob@alice.dev''
                   = (res, DnsMx ''alice.dev'' # evs))"
proof -
  have n: "CHR ''@'' \<notin> set ''nodomain''" "CHR ''@'' \<notin> set ''bob''"
    "CHR ''@'' \<notin> set ''alice.dev''"
    by simp_all
  have dn: "domain_part ''nodomain'' = ''nodomain''"
    and db: "domain_part ''bob@alice.dev'' = ''alice.dev''"
    by (simp_all add: domain_part_def)
  have mn: "dns_mx demo_env ''nodomain'' = Raises ''NXDOMAIN''"
    and ma: "dns_mx demo_env ''alice.dev'' = Returns [''mx.alice.dev'']"
    by (simp_all add: demo_env_def demo_mx_def)
  have hs: "smtp_handshake_check demo_env ''bob@alice.dev''
      = ((''accepted'', ''mx.alice.dev''),
         [DnsMx ''alice.dev'', SmtpSession ''mx.alice.dev'' ''bob@alice.dev''])"
    by code_simp
  show ?thesis
    using n dn db mn ma hs
      verifier_lookup_and_bad_email
        [where e = demo_env and em = "''nodomain''" and sv = True and x = "''NXDOMAIN''"
           and l = "''a@b''" and d = "''alice.dev''"]
      verifier_lookup_and_bad_email
        [where e = demo_env and em = "''bob@alice.dev''" and sv = False
           and hosts = "[''mx.alice.dev'']" and l = "''bob''" and d = "''alice.dev''"]
      verifier_lookup_and_bad_email
        [where e = demo_env and em = "''bob@alice.dev''" and sv = True
           and hosts = "[''mx.alice.dev'']"]
    by simp
qed

text \<open>
  The claim as first stated gives an address without \<open>@\<close> the result
  \<open>mx = False\<close>, \<open>unknown\<close>, \<open>bad_email\<close>, with no DNS call. In \<open>main\<close> such an address
  costs one MX lookup; it gets an empty status and an empty note when the lookup fails, and
  \<open>mx = True\<close> with \<open>bad_email\<close> when the lookup succeeds.
\<close>

theorem verifier_bad_email_counterexample:
  "CHR ''@'' \<notin> set ''nodomain''
   \<and> verify_email demo_env True ''nodomain'' = ((False, '''', ''''), [DnsMx ''nodomain''])
   \<and> CHR ''@'' \<notin> set ''alice.dev''
   \<and> verify_email demo_env True ''alice.dev''
       = ((True, ''unknown'', ''bad_email''), [DnsMx ''alice.dev''])"
proof -
  have 1: "verify_email demo_env True ''nodomain'' = ((False, '''', ''''), [DnsMx ''nodomain''])"
    by code_simp
  have 2: "verify_email demo_env True ''alice.dev''
       = ((True, ''unknown'', ''bad_email''), [DnsMx ''alice.dev''])"
    by code_simp
  show ?thesis using 1 2 by simp
qed

text \<open>
  Claim C8. For a size cap \<open>max_bytes\<close> (a number that is not negative): when the size
  probe returns a content length that exceeds \<open>max_bytes\<close>, the fetcher returns the status
  \<open>skip_large:\<close> followed by the size, with empty sets of addresses and links, and its only
  call is the \<open>HEAD\<close> request: the body is not retrieved.
\<close>

theorem fetch_skip_large:
  "0 \<le> max_bytes \<and> http_head e url = Returns h \<and> size_of_head h = Returns sz \<and> sz > max_bytes
   \<longrightarrow> extract_emails_and_links_from_url e url max_bytes
         = (({}, {}, ''skip_large:'' @ show_int sz), [HttpHead url])
       \<and> HttpGet url \<notin> set (snd (extract_emails_and_links_from_url e url max_bytes))"
  by (simp add: extract_emails_and_links_from_url_def)

theorem fetch_skip_large_witness:
  "(0::int) \<le> 1000000
   \<and> http_head demo_env ''https://big.test/'' = Returns (Some ''5000000'')
   \<and> size_of_head (Some ''5000000'') = Returns 5000000
   \<and> extract_emails_and_links_from_url demo_env ''https://big.test/'' 1000000
       = (({}, {}, ''skip_large:5000000''), [HttpHead ''https://big.test/''])"
proof -
  have h: "http_head demo_env ''https://big.test/'' = Returns (Some ''5000000'')"
    by (simp add: demo_env_def demo_head_def)
  have s: "size_of_head (Some ''5000000'') = Returns 5000000"
    by (simp add: size_of_head_def py_int_def int_strip_def is_int_space_def
        py_nat_literal_def is_ascii_digit_def digit_val_def int_max_str_digits_def)
  have t: "show_int 5000000 = ''5000000''"
    by (simp add: show_int_def digit_char_def)
  show ?thesis
    using h s t fetch_skip_large[of 1000000 demo_env "''https://big.test/''" "Some ''5000000''"
        5000000]
    by simp
qed

text \<open>
  Claim C9. In the rows of a run, every row of tier \<open>guess_personal\<close> names a domain
  \<open>dm\<close> (its URL is \<open>https://dm\<close> and its address is a guess on \<open>dm\<close>) such that the MX
  lookup of \<open>dm\<close> succeeded, \<open>dm\<close> is the domain of a link that is neither an aggregator
  nor a social platform, and a row of tier \<open>site_deep\<close> for the same user, with an address
  found on the page of that link, stands earlier in the output. The order in which a loop
  visits a Python set is the environment's, and only taken to visit the set's elements.
\<close>

theorem guess_rows_gated:
  "order_ok e \<and> r \<in> set (run e ag users) \<and> source r = ''guess_personal'' \<longrightarrow>
     (\<exists>dm link r' pre mid post.
        external_url r = ''https://'' @ dm \<and> email r \<in> guess_emails (full_name r) dm \<and>
        fst (mx_exists e dm) \<and>
        domain_from_url e link = Some dm \<and> \<not> is_aggregator_or_social dm \<and>
        source r' = ''site_deep'' \<and> username r' = username r \<and> external_url r' = link \<and>
        email r' \<in> fst (fst (extract_emails_and_links_from_url e link (max_site_bytes ag))) \<and>
        run e ag users = pre @ r' # mid @ r # post)"
proof
  assume a: "order_ok e \<and> r \<in> set (run e ag users) \<and> source r = ''guess_personal''"
  then obtain u where u: "u \<in> set users" "r \<in> set (process_user e ag u)"
    by (auto simp: run_def)
  obtain us1 us2 where us: "users = us1 @ u # us2" using u(1) by (meson split_list)
  obtain dm link r' pre mid post where p:
    "external_url r = ''https://'' @ dm" "email r \<in> guess_emails (full_name r) dm"
    "fst (mx_exists e dm)" "domain_from_url e link = Some dm" "\<not> is_aggregator_or_social dm"
    "source r' = ''site_deep''" "username r' = username r" "external_url r' = link"
    "email r' \<in> fst (fst (extract_emails_and_links_from_url e link (max_site_bytes ag)))"
    "process_user e ag u = pre @ r' # mid @ r # post"
    using process_user_guess[of e r ag u] a u(2) by blast
  have "run e ag users = (run e ag us1 @ pre) @ r' # mid @ r # (post @ run e ag us2)"
    using us p(10) by (simp add: run_def)
  then show "\<exists>dm link r' pre mid post.
        external_url r = ''https://'' @ dm \<and> email r \<in> guess_emails (full_name r) dm \<and>
        fst (mx_exists e dm) \<and>
        domain_from_url e link = Some dm \<and> \<not> is_aggregator_or_social dm \<and>
        source r' = ''site_deep'' \<and> username r' = username r \<and> external_url r' = link \<and>
        email r' \<in> fst (fst (extract_emails_and_links_from_url e link (max_site_bytes ag))) \<and>
        run e ag users = pre @ r' # mid @ r # post"
    using p(1-9) by blast
qed

theorem guess_rows_gated_witness:
  "order_ok demo_env
   \<and> make_row ''alice'' ''Alice Lee'' ''https://alice.dev'' ''alee@alice.dev''
         ''guess_personal'' ''True'' ''accepted'' ''mx.alice.dev''
       \<in> set (run demo_env demo_args [''alice''])
   \<and> (\<exists>dm link r' pre mid post.
        ''https://alice.dev'' = ''https://'' @ dm \<and>
        ''alee@alice.dev'' \<in> guess_emails ''Alice Lee'' dm \<and>
        fst (mx_exists demo_env dm) \<and>
        domain_from_url demo_env link = Some dm \<and> \<not> is_aggregator_or_social dm \<and>
        source r' = ''site_deep'' \<and> username r' = ''alice'' \<and> external_url r' = link \<and>
        email r' \<in> fst (fst (extract_emails_and_links_from_url demo_env link
                                (max_site_bytes demo_args))) \<and>
        run demo_env demo_args [''alice''] =
          pre @ r' # mid @
          make_row ''alice'' ''Alice Lee'' ''https://alice.dev'' ''alee@alice.dev''
            ''guess_personal'' ''True'' ''accepted'' ''mx.alice.dev'' # post)"
proof -
  have m: "make_row ''alice'' ''Alice Lee'' ''https://alice.dev'' ''alee@alice.dev''
         ''guess_personal'' ''True'' ''accepted'' ''mx.alice.dev''
       \<in> set (run demo_env demo_args [''alice''])"
    by code_simp
  show ?thesis
    using m order_ok_demo
      guess_rows_gated[of demo_env
        "make_row ''alice'' ''Alice Lee'' ''https://alice.dev'' ''alee@alice.dev''
           ''guess_personal'' ''True'' ''accepted'' ''mx.alice.dev''"
        demo_args "[''alice'']"]
    by (simp add: make_row_def)
qed

text \<open>
  Claim C5. \<open>extract_emails_from_text\<close> is idempotent: when the addresses it finds in a
  text are listed in any order and joined by single blanks, it finds in the joined string
  the same set of addresses.
\<close>

theorem extract_emails_idempotent:
  "set es = extract_emails_from_text txt \<longrightarrow>
   extract_emails_from_text (py_join '' '' es) = extract_emails_from_text txt"
proof
  assume a: "set es = extract_emails_from_text txt"
  have sh: "\<forall>e\<in>set es. email_shaped e"
    using a finditer_shaped by (auto simp: extract_emails_from_text_def)
  have "clean_obfuscated_email (py_join '' '' es) = py_join '' '' es"
    by (rule clean_calm[OF calm_join[OF sh]])
  then have "extract_emails_from_text (py_join '' '' es) = set es"
    by (simp add: extract_emails_from_text_def finditer_join[OF sh])
  then show "extract_emails_from_text (py_join '' '' es) = extract_emails_from_text txt"
    using a by simp
qed

theorem extract_emails_idempotent_witness:
  "set [''jane@foo.org'', ''john@example.com'']
     = extract_emails_from_text ''john [at] example [dot] com, jane at foo dot org''
   \<and> py_join '' '' [''jane@foo.org'', ''john@example.com''] = ''jane@foo.org john@example.com''
   \<and> extract_emails_from_text ''jane@foo.org john@example.com''
       = extract_emails_from_text ''john [at] example [dot] com, jane at foo dot org''"
proof -
  have c: "clean_obfuscated_email ''john [at] example [dot] com, jane at foo dot org''
      = ''john@example.com, jane@foo.org''"
    by code_simp
  have f: "email_finditer ''john@example.com, jane@foo.org''
      = [''john@example.com'', ''jane@foo.org'']"
    by code_simp
  have s: "set [''jane@foo.org'', ''john@example.com'']
     = extract_emails_from_text ''john [at] example [dot] com, jane at foo dot org''"
    unfolding extract_emails_from_text_def c f by auto
  show ?thesis
    using s extract_emails_idempotent
      [of "[''jane@foo.org'', ''john@example.com'']"
          "''john [at] example [dot] com, jane at foo dot org''"]
    by simp
qed

end
